theory Spec2Isabelle
  imports Main "HOL-Library.Word"
begin

unbundle bit_operations_syntax

section \<open>The reconciliation peer of sks/recon.go\<close>

text \<open>
  A shallow embedding of \<^verbatim>\<open>sks/recon.go\<close>. What the file imports (the conflux
  reconciliation engine, the prefix tree, the HTTP client, the key storage, the clock)
  is outside it. Those parts enter the model as parameters, so that a theorem holds for
  every behaviour they can show; the SKS field of conflux is also given as one instance,
  on which examples are computed. Mutexes are left out: the model is sequential.
\<close>

subsection \<open>Errors\<close>

text \<open>
  Go's \<^verbatim>\<open>error\<close> values. \<^verbatim>\<open>nil\<close> is \<open>None\<close> of \<open>error option\<close>. The constructors
  follow the places where recon.go builds an error: \<^verbatim>\<open>errgo.Mask(err)\<close>,
  \<^verbatim>\<open>errgo.Notef(err, "bad digest %q", digest)\<close>,
  \<^verbatim>\<open>errgo.Notef(resultErr, "%s", errgo.Details(err))\<close> and
  \<^verbatim>\<open>errgo.Newf("error response from %q: %v", remoteAddr, string(bodyBuf))\<close>.
  \<open>ErrLength\<close> and \<open>InvalidByteError\<close> are the two errors of \<^verbatim>\<open>encoding/hex\<close>;
  \<open>Other\<close> is any error handed in by the environment.
\<close>

type_synonym byte = "8 word"

datatype error =
    ErrLength
  | InvalidByteError char
  | Other string
  | Mask error
  | NotefBadDigest error string
  | NotefDetails error error
  | ErrorResponse string "byte list"

subsection \<open>What recon.go takes from conflux\<close>

text \<open>
  \<open>'z\<close> is \<^verbatim>\<open>*cf.Zp\<close>. \<open>Zb\<close> is \<^verbatim>\<open>cf.Zb(cf.P_SKS, buf)\<close>, \<open>Bytes\<close> is \<^verbatim>\<open>z.Bytes()\<close>,
  \<open>WriteInt\<close> is \<^verbatim>\<open>recon.WriteInt(w, n)\<close>: the bytes it appends to the writer, or its
  error.
\<close>

record 'z conflux =
  Zb :: "byte list \<Rightarrow> 'z"
  Bytes :: "'z \<Rightarrow> byte list"
  WriteInt :: "int \<Rightarrow> error + byte list"

text \<open>
  Modelled from the spec: \<^verbatim>\<open>recon.PadSksElement\<close> belongs to conflux, whose code is
  not among the sources of this repository. The spec has it pad the raw bytes to the
  protocol's full element width, and the comment at line 359 of recon.go gives that
  width: hash-query elements are 16 bytes, one less than the length of \<^verbatim>\<open>P_SKS\<close>.
  Bytes already that long or longer are left as they are.
\<close>

definition SksZpNbytes :: nat where
  "SksZpNbytes = 17"

definition PadSksElement :: "byte list \<Rightarrow> byte list" where
  "PadSksElement zb = zb @ replicate (SksZpNbytes - length zb) 0"

text \<open>
  \<^verbatim>\<open>*recon.Recover\<close>, as far as recon.go reads it: the remote elements and what
  \<^verbatim>\<open>rcvr.HkpAddr()\<close> returns.
\<close>

record 'z Recover =
  RemoteElements :: "'z list"
  HkpAddr :: "error + string"

subsection \<open>requestChunk\<close>

text \<open>
  Lines 351 to 369: the request body. \<open>hashqueryElements\<close> is the loop over the chunk,
  \<open>buf\<close> the contents of \<^verbatim>\<open>hqBuf\<close> so far.
\<close>

fun hashqueryElements :: "'z conflux \<Rightarrow> 'z list \<Rightarrow> byte list \<Rightarrow> error + byte list" where
  "hashqueryElements L [] buf = Inr buf"
| "hashqueryElements L (z # chunk) buf =
     (let zb = Bytes L z;
          zb = PadSksElement zb;
          zb = take (length zb - 1) zb
      in case WriteInt L (int (length zb)) of
           Inl err \<Rightarrow> Inl (Mask err)
         | Inr n \<Rightarrow> hashqueryElements L chunk (buf @ n @ zb))"

definition hashqueryRequest :: "'z conflux \<Rightarrow> 'z list \<Rightarrow> error + byte list" where
  "hashqueryRequest L chunk =
     (case WriteInt L (int (length chunk)) of
        Inl err \<Rightarrow> Inl (Mask err)
      | Inr n \<Rightarrow> hashqueryElements L chunk n)"

text \<open>
  The network and the storage are a world \<open>'w\<close>. \<open>Post\<close> is \<^verbatim>\<open>http.Post\<close> with the
  reading of the response body (lines 372 to 385): an error, or the status code and the
  body. \<open>Merge\<close> is lines 391 to 416: the parsing of the response and the upsert of each
  key, with the error it returns.
\<close>

record 'w transport =
  Post :: "string \<Rightarrow> byte list \<Rightarrow> 'w \<Rightarrow> (error + (nat \<times> byte list)) \<times> 'w"
  Merge :: "byte list \<Rightarrow> 'w \<Rightarrow> error option \<times> 'w"

definition requestChunk ::
  "'z conflux \<Rightarrow> 'w transport \<Rightarrow> 'z Recover \<Rightarrow> 'z list \<Rightarrow> 'w \<Rightarrow> error option \<times> 'w" where
  "requestChunk L T rcvr chunk w =
     (case HkpAddr rcvr of
        Inl err \<Rightarrow> (Some (Mask err), w)
      | Inr remoteAddr \<Rightarrow>
          (case hashqueryRequest L chunk of
             Inl err \<Rightarrow> (Some err, w)
           | Inr hqBuf \<Rightarrow>
               (case Post T (''http://'' @ remoteAddr @ ''/pks/hashquery'') hqBuf w of
                  (Inl err, w') \<Rightarrow> (Some (Mask err), w')
                | (Inr (status, bodyBuf), w') \<Rightarrow>
                    if status \<noteq> 200 then (Some (ErrorResponse remoteAddr bodyBuf), w')
                    else Merge T bodyBuf w')))"

subsection \<open>requestRecovered\<close>

definition requestChunkSize :: nat where
  "requestChunkSize = 100"

text \<open>
  The loop of lines 323 to 340, on the remaining \<open>items\<close> and \<open>resultErr\<close>. \<open>rc\<close> is
  the method \<^verbatim>\<open>r.requestChunk\<close>.
\<close>

function requestRecovered_loop ::
  "('r \<Rightarrow> 'z list \<Rightarrow> 'w \<Rightarrow> error option \<times> 'w) \<Rightarrow> 'r \<Rightarrow> 'z list \<Rightarrow> error option \<Rightarrow> 'w
     \<Rightarrow> error option \<times> 'w" where
  "requestRecovered_loop rc rcvr items resultErr w =
     (if length items > 0 then
        (let chunksize = requestChunkSize;
             chunksize = (if chunksize > length items then length items else chunksize);
             chunk = take chunksize items;
             items' = drop chunksize items;
             (err, w') = rc rcvr chunk w;
             resultErr' =
               (case err of
                  None \<Rightarrow> resultErr
                | Some e \<Rightarrow>
                    (case resultErr of
                       None \<Rightarrow> Some (Mask e)
                     | Some r \<Rightarrow> Some (NotefDetails r e)))
         in requestRecovered_loop rc rcvr items' resultErr' w')
      else (resultErr, w))"
  by pat_completeness auto
termination
  by (relation "measure (\<lambda>(rc, rcvr, items, resultErr, w). length items)")
     (auto simp: requestChunkSize_def)

definition requestRecovered_with ::
  "('z Recover \<Rightarrow> 'z list \<Rightarrow> 'w \<Rightarrow> error option \<times> 'w) \<Rightarrow> 'z Recover \<Rightarrow> 'w \<Rightarrow> error option \<times> 'w" where
  "requestRecovered_with rc rcvr w = requestRecovered_loop rc rcvr (RemoteElements rcvr) None w"

definition requestRecovered ::
  "'z conflux \<Rightarrow> 'w transport \<Rightarrow> 'z Recover \<Rightarrow> 'w \<Rightarrow> error option \<times> 'w" where
  "requestRecovered L T = requestRecovered_with (requestChunk L T)"

subsection \<open>handleRecovery\<close>

text \<open>
  Each turn of the loop is one outcome of the \<^verbatim>\<open>select\<close>: the tomb is dying, or a
  \<^verbatim>\<open>Recover\<close> arrives on \<^verbatim>\<open>RecoverChan\<close>. The outcomes are given as a list. The result
  is \<open>Some err\<close> when the function has returned \<open>err\<close>, and \<open>None\<close> when the list is
  used up and the loop still waits in the \<^verbatim>\<open>select\<close>.
\<close>

datatype 'z select = Dying | Recovered "'z Recover"

fun handleRecovery_with ::
  "('z Recover \<Rightarrow> 'z list \<Rightarrow> 'w \<Rightarrow> error option \<times> 'w) \<Rightarrow> 'z select list \<Rightarrow> 'w
     \<Rightarrow> error option option \<times> 'w" where
  "handleRecovery_with rc [] w = (None, w)"
| "handleRecovery_with rc (Dying # evs) w = (Some None, w)"
| "handleRecovery_with rc (Recovered rcvr # evs) w =
     (case requestRecovered_with rc rcvr w of (_, w') \<Rightarrow> handleRecovery_with rc evs w')"

definition handleRecovery ::
  "'z conflux \<Rightarrow> 'w transport \<Rightarrow> 'z select list \<Rightarrow> 'w \<Rightarrow> error option option \<times> 'w" where
  "handleRecovery L T = handleRecovery_with (requestChunk L T)"

subsection \<open>DigestZp\<close>

text \<open>
  \<^verbatim>\<open>hex.DecodeString\<close> of Go's standard library: two hexadecimal digits of either case
  give one byte; a character that is no digit is an \<open>InvalidByteError\<close>, an odd length
  is \<open>ErrLength\<close>.
\<close>

definition fromHexChar :: "char \<Rightarrow> byte option" where
  "fromHexChar c =
     (let n = (of_char c :: nat)
      in if 48 \<le> n \<and> n \<le> 57 then Some (of_nat (n - 48))
         else if 97 \<le> n \<and> n \<le> 102 then Some (of_nat (n - 97 + 10))
         else if 65 \<le> n \<and> n \<le> 70 then Some (of_nat (n - 65 + 10))
         else None)"

fun hex_DecodeString :: "string \<Rightarrow> error + byte list" where
  "hex_DecodeString [] = Inr []"
| "hex_DecodeString [p] =
     (case fromHexChar p of None \<Rightarrow> Inl (InvalidByteError p) | Some a \<Rightarrow> Inl ErrLength)"
| "hex_DecodeString (p # q # src) =
     (case fromHexChar p of
        None \<Rightarrow> Inl (InvalidByteError p)
      | Some a \<Rightarrow>
          (case fromHexChar q of
             None \<Rightarrow> Inl (InvalidByteError q)
           | Some b \<Rightarrow>
               (case hex_DecodeString src of
                  Inl err \<Rightarrow> Inl err
                | Inr dst \<Rightarrow> Inr ((push_bit 4 a OR b) # dst))))"

definition DigestZp :: "'z conflux \<Rightarrow> string \<Rightarrow> error + 'z" where
  "DigestZp L digest =
     (case hex_DecodeString digest of
        Inl err \<Rightarrow> Inl (Mask err)
      | Inr buf \<Rightarrow> Inr (Zb L (PadSksElement buf)))"

subsection \<open>Stats\<close>

text \<open>
  Modelled from the spec: \<^verbatim>\<open>storage.KeyChange\<close> is declared in the package
  \<^verbatim>\<open>storage\<close> of this repository, whose code is not among the sources at hand. The
  spec has it tagged as Added or Replaced and carrying the digests newly present and
  the digests removed.
  recon.go reads it through \<^verbatim>\<open>InsertDigests()\<close>, \<^verbatim>\<open>RemoveDigests()\<close> and two type
  switches with the cases \<^verbatim>\<open>storage.KeyAdded\<close> and \<^verbatim>\<open>storage.KeyReplaced\<close>; \<open>KeyOther\<close>
  is any other value of the interface, which both switches pass over.
\<close>

datatype change_kind = KeyAdded | KeyReplaced | KeyOther

record KeyChange =
  kind :: change_kind
  InsertDigests :: "string list"
  RemoveDigests :: "string list"

text \<open>
  A \<^verbatim>\<open>time.Time\<close> without monotonic clock reading, as the keys of a \<open>LoadStatMap\<close> are:
  the instant in nanoseconds since the zero time (January 1, year 1, 00:00 UTC) and the
  location. Two keys are the same key when both agree; \<^verbatim>\<open>Before\<close> compares the
  instants. A \<^verbatim>\<open>time.Duration\<close> is a number of nanoseconds.
\<close>

datatype location = UTC | Zone nat

record Time =
  instant :: int
  location :: location

definition Hour :: int where
  "Hour = 3600000000000"

definition Time_UTC :: "Time \<Rightarrow> Time" where
  "Time_UTC t = t\<lparr>location := UTC\<rparr>"

definition Time_Add :: "Time \<Rightarrow> int \<Rightarrow> Time" where
  "Time_Add t d = t\<lparr>instant := instant t + d\<rparr>"

definition Time_Truncate :: "Time \<Rightarrow> int \<Rightarrow> Time" where
  "Time_Truncate t d = (if d \<le> 0 then t else t\<lparr>instant := instant t - instant t mod d\<rparr>)"

definition Time_Before :: "Time \<Rightarrow> Time \<Rightarrow> bool" where
  "Time_Before t u \<longleftrightarrow> instant t < instant u"

text \<open>
  Go's \<^verbatim>\<open>int\<close> on the 64-bit platforms: \<^verbatim>\<open>++\<close> wraps around. A \<open>LoadStatMap\<close> maps
  a time to a pointer \<^verbatim>\<open>*LoadStat\<close>: \<open>m t = None\<close> when the map has no entry for \<open>t\<close>,
  \<open>m t = Some None\<close> when the entry is a nil pointer (a bucket that the stats file gives
  as \<^verbatim>\<open>null\<close>), and \<open>m t = Some (Some ls)\<close> when it points to \<open>ls\<close>. No two entries
  point to the same \<open>LoadStat\<close>. A panic ends the run; it is the left value of a sum.
\<close>

type_synonym go_int = "64 word"

datatype panic = NilPointerDereference

record LoadStat =
  Inserted :: go_int
  Updated :: go_int

type_synonym LoadStatMap = "Time \<rightharpoonup> LoadStat option"

definition LoadStatMap_update :: "LoadStatMap \<Rightarrow> Time \<Rightarrow> KeyChange \<Rightarrow> panic + LoadStatMap" where
  "LoadStatMap_update m t kc =
     (let (ls, m) = (case m t of
                       None \<Rightarrow> (Some \<lparr>Inserted = 0, Updated = 0\<rparr>,
                                m(t \<mapsto> Some \<lparr>Inserted = 0, Updated = 0\<rparr>))
                     | Some ls \<Rightarrow> (ls, m))
      in case kind kc of
           KeyAdded \<Rightarrow>
             (case ls of
                None \<Rightarrow> Inl NilPointerDereference
              | Some l \<Rightarrow> Inr (m(t \<mapsto> Some (l\<lparr>Inserted := Inserted l + 1\<rparr>))))
         | KeyReplaced \<Rightarrow>
             (case ls of
                None \<Rightarrow> Inl NilPointerDereference
              | Some l \<Rightarrow> Inr (m(t \<mapsto> Some (l\<lparr>Updated := Updated l + 1\<rparr>))))
         | KeyOther \<Rightarrow> Inr m)"

record Stats =
  Total :: go_int
  Hourly :: LoadStatMap
  Daily :: LoadStatMap

definition newStats :: Stats where
  "newStats = \<lparr>Total = 0, Hourly = Map.empty, Daily = Map.empty\<rparr>"

text \<open>
  \<^verbatim>\<open>prune\<close> and \<^verbatim>\<open>update\<close> read the clock twice each; \<open>now1\<close> and \<open>now2\<close> are the two
  values of \<^verbatim>\<open>time.Now()\<close>, in the order of the calls. Both are methods of \<^verbatim>\<open>*Stats\<close>;
  here the receiver points to a \<open>Stats\<close>, and the callers see to the nil receiver.
  \<^verbatim>\<open>prune\<close> only deletes keys and never follows the pointer of a bucket.
\<close>

definition prune :: "Time \<Rightarrow> Time \<Rightarrow> Stats \<Rightarrow> Stats" where
  "prune now1 now2 s =
     (let yesterday = Time_Add (Time_UTC now1) (- 24 * Hour);
          lastWeek = Time_Add (Time_UTC now2) (- 24 * 7 * Hour);
          s = s\<lparr>Hourly := (\<lambda>k. if Time_Before k yesterday then None else Hourly s k)\<rparr>;
          s = s\<lparr>Daily := (\<lambda>k. if Time_Before k lastWeek then None else Daily s k)\<rparr>
      in s)"

definition Stats_update :: "Time \<Rightarrow> Time \<Rightarrow> KeyChange \<Rightarrow> Stats \<Rightarrow> panic + Stats" where
  "Stats_update now1 now2 kc s =
     (case LoadStatMap_update (Hourly s) (Time_Truncate (Time_UTC now1) Hour) kc of
        Inl p \<Rightarrow> Inl p
      | Inr hourly \<Rightarrow>
          (case LoadStatMap_update (Daily s) (Time_Truncate (Time_UTC now2) (24 * Hour)) kc of
             Inl p \<Rightarrow> Inl p
           | Inr daily \<Rightarrow>
               (let s = s\<lparr>Hourly := hourly, Daily := daily\<rparr>
                in case kind kc of
                     KeyAdded \<Rightarrow> Inr (s\<lparr>Total := Total s + 1\<rparr>)
                   | KeyReplaced \<Rightarrow> Inr (s\<lparr>Total := Total s + 1\<rparr>)
                   | KeyOther \<Rightarrow> Inr s)))"

subsection \<open>loadStats\<close>

text \<open>
  The stats file as \<^verbatim>\<open>loadStats\<close> meets it: \<^verbatim>\<open>os.Open\<close> fails because the file does
  not exist, or fails otherwise, or the file opens and
  \<^verbatim>\<open>json.NewDecoder(f).Decode(&stats)\<close> runs on the fresh \<^verbatim>\<open>newStats()\<close>. \<open>Opened st err\<close>
  gives what \<^verbatim>\<open>stats\<close> points to after the decoding and the decoder's error. The
  decoder is handed the address of the pointer, so it can also reset the pointer to nil,
  which is \<open>st = None\<close> (the JSON text \<^verbatim>\<open>null\<close> does that). After an error \<open>st\<close> is
  whatever the decoder had filled in so far.

  \<open>root\<close> is what \<^verbatim>\<open>p.ptree.Root()\<close> returns, with \<^verbatim>\<open>root.Size()\<close> for the node.
  The result is the new \<^verbatim>\<open>p.stats\<close>, or the panic of the assignment
  \<^verbatim>\<open>stats.Total = root.Size()\<close> through a nil pointer.
\<close>

datatype stats_file = NotExist | OpenError error | Opened "Stats option" "error option"

definition loadStats :: "stats_file \<Rightarrow> error + go_int \<Rightarrow> panic + Stats option" where
  "loadStats file root =
     (let stats = (case file of
                     NotExist \<Rightarrow> Some newStats
                   | OpenError err \<Rightarrow> Some newStats
                   | Opened st err \<Rightarrow> st)
      in case root of
           Inl err \<Rightarrow> Inr stats
         | Inr rootSize \<Rightarrow>
             (case stats of
                None \<Rightarrow> Inl NilPointerDereference
              | Some s \<Rightarrow> Inr (Some (s\<lparr>Total := rootSize\<rparr>))))"

subsection \<open>updateDigests\<close>

text \<open>
  \<^verbatim>\<open>r.peer\<close> is the reconciliation engine. The model keeps the calls
  \<^verbatim>\<open>r.peer.Insert\<close> and \<^verbatim>\<open>r.peer.Remove\<close> that it has received, in order. \<open>stats\<close> is
  the pointer \<^verbatim>\<open>r.stats\<close>, which \<^verbatim>\<open>loadStats\<close> can leave nil (\<open>None\<close>). The call
  \<^verbatim>\<open>r.stats.update(change)\<close> of line 291 panics on a nil \<^verbatim>\<open>r.stats\<close> and where
  \<^verbatim>\<open>Stats.update\<close> does.
\<close>

datatype 'z engine_call = Insert 'z | Remove 'z

record 'z Peer =
  peer :: "'z engine_call list"
  stats :: "Stats option"

fun insertDigests :: "'z conflux \<Rightarrow> string list \<Rightarrow> 'z Peer \<Rightarrow> error option \<times> 'z Peer" where
  "insertDigests L [] r = (None, r)"
| "insertDigests L (digest # digests) r =
     (case DigestZp L digest of
        Inl err \<Rightarrow> (Some (NotefBadDigest err digest), r)
      | Inr digestZp \<Rightarrow> insertDigests L digests (r\<lparr>peer := peer r @ [Insert digestZp]\<rparr>))"

fun removeDigests :: "'z conflux \<Rightarrow> string list \<Rightarrow> 'z Peer \<Rightarrow> error option \<times> 'z Peer" where
  "removeDigests L [] r = (None, r)"
| "removeDigests L (digest # digests) r =
     (case DigestZp L digest of
        Inl err \<Rightarrow> (Some (NotefBadDigest err digest), r)
      | Inr digestZp \<Rightarrow> removeDigests L digests (r\<lparr>peer := peer r @ [Remove digestZp]\<rparr>))"

text \<open>The two loops of lines 292 to 306, with the error they return.\<close>

definition applyDigests :: "'z conflux \<Rightarrow> KeyChange \<Rightarrow> 'z Peer \<Rightarrow> error option \<times> 'z Peer" where
  "applyDigests L change r =
     (case insertDigests L (InsertDigests change) r of
        (Some err, r') \<Rightarrow> (Some err, r')
      | (None, r') \<Rightarrow> removeDigests L (RemoveDigests change) r')"

definition updateDigests ::
  "'z conflux \<Rightarrow> Time \<Rightarrow> Time \<Rightarrow> KeyChange \<Rightarrow> 'z Peer \<Rightarrow> panic + error option \<times> 'z Peer" where
  "updateDigests L now1 now2 change r =
     (case stats r of
        None \<Rightarrow> Inl NilPointerDereference
      | Some s \<Rightarrow>
          (case Stats_update now1 now2 change s of
             Inl p \<Rightarrow> Inl p
           | Inr s' \<Rightarrow> Inr (applyDigests L change (r\<lparr>stats := Some s'\<rparr>))))"

subsection \<open>Stop\<close>

text \<open>
  What \<^verbatim>\<open>Stop\<close> and \<^verbatim>\<open>saveStats\<close> do, as the list of the calls they have made, in
  order, and whether \<^verbatim>\<open>Stop\<close> has returned. The arguments are what the calls do: \<open>wait\<close>
  for \<^verbatim>\<open>r.t.Wait()\<close>, \<open>stop\<close> for \<^verbatim>\<open>r.peer.Stop()\<close>, \<open>close\<close> for
  \<^verbatim>\<open>r.ptree.Close()\<close>, \<open>create\<close> for \<^verbatim>\<open>os.Create\<close> and \<open>encode\<close> for the encoder.

  The first three wait for other goroutines, so each of them either returns a value or
  \<open>Blocks\<close>: \<^verbatim>\<open>r.t.Wait()\<close> returns once every goroutine of the tomb has returned. It
  blocks as long as \<^verbatim>\<open>handleRecovery\<close> is inside an \<^verbatim>\<open>http.Post\<close> that does not come
  back, and for ever when \<^verbatim>\<open>Start\<close> never put a goroutine on the tomb. A call that
  blocks is the last call of the list.
\<close>

datatype 'a returns = Blocks | Returns 'a

datatype call =
    LogInfo string
  | LogError error
  | LogErrorf string error
  | LogWarningf string error
  | LogErrorStats
  | TombKill
  | TombWait
  | PeerStop
  | PtreeClose
  | StatsCreate
  | StatsEncode
  | StatsClose

definition saveStats :: "error option \<Rightarrow> error option \<Rightarrow> call list" where
  "saveStats create encode =
     [StatsCreate]
     @ (case create of None \<Rightarrow> [] | Some err \<Rightarrow> [LogWarningf ''cannot open stats'' err])
     @ [StatsEncode]
     @ (case encode of None \<Rightarrow> [] | Some err \<Rightarrow> [LogWarningf ''cannot encode stats'' err])
     @ [LogErrorStats, StatsClose]"

definition Stop ::
  "error option returns \<Rightarrow> error option returns \<Rightarrow> error option returns \<Rightarrow>
   error option \<Rightarrow> error option \<Rightarrow> call list \<times> bool" where
  "Stop wait stop close create encode =
     (let calls = [LogInfo ''recon processing: stopping'', TombKill, TombWait]
      in case wait of
           Blocks \<Rightarrow> (calls, False)
         | Returns err \<Rightarrow>
             (let calls = calls
                    @ (case err of None \<Rightarrow> [] | Some err \<Rightarrow> [LogError err])
                    @ [LogInfo ''recon processing: stopped'', LogInfo ''recon peer: stopping'',
                       PeerStop]
              in case stop of
                   Blocks \<Rightarrow> (calls, False)
                 | Returns err \<Rightarrow>
                     (let calls = calls
                            @ (case err of None \<Rightarrow> [] | Some err \<Rightarrow> [LogError (Mask err)])
                            @ [LogInfo ''recon peer: stopped'', PtreeClose]
                      in case close of
                           Blocks \<Rightarrow> (calls, False)
                         | Returns err \<Rightarrow>
                             (calls
                              @ (case err of
                                   None \<Rightarrow> []
                                 | Some err \<Rightarrow> [LogErrorf ''error closing prefix tree'' err])
                              @ saveStats create encode,
                              True))))"

subsection \<open>The SKS field\<close>

text \<open>
  Modelled from the spec: \<^verbatim>\<open>cf.Zb\<close>, \<^verbatim>\<open>cf.P_SKS\<close>, \<^verbatim>\<open>Zp.Bytes\<close> and
  \<^verbatim>\<open>recon.WriteInt\<close> belong to conflux, whose code is not among the sources of this
  repository. The spec has a digest be
  an unsigned integer of the protocol's element width in the arithmetic domain of the
  reconciliation engine. recon.go names that domain: \<^verbatim>\<open>cf.Zp\<close>, the integers modulo the
  SKS prime \<^verbatim>\<open>cf.P_SKS\<close>, a number of 17 bytes (line 359). \<open>Zb\<close> reads the bytes with the
  least significant byte first, so that the zero bytes that \<^verbatim>\<open>PadSksElement\<close> appends
  leave the number as it is, and reduces it modulo \<open>P_SKS\<close>; \<open>Bytes\<close> writes a residue
  in the same order, without zero bytes at the end; \<open>WriteInt\<close> writes a 32-bit number,
  most significant byte first.
\<close>

definition P_SKS :: int where
  "P_SKS = 530512889551602322505127520352579437339"

fun le_val :: "byte list \<Rightarrow> int" where
  "le_val [] = 0"
| "le_val (b # bs) = uint b + 256 * le_val bs"

function le_bytes :: "int \<Rightarrow> byte list" where
  "le_bytes n = (if n \<le> 0 then [] else word_of_int (n mod 256) # le_bytes (n div 256))"
  by pat_completeness auto
termination
  by (relation "measure nat") auto

definition be_uint32 :: "int \<Rightarrow> byte list" where
  "be_uint32 n =
     [word_of_int (n div 2 ^ 24), word_of_int (n div 2 ^ 16), word_of_int (n div 2 ^ 8),
      word_of_int n]"

definition sks :: "int conflux" where
  "sks = \<lparr>Zb = (\<lambda>buf. le_val buf mod P_SKS), Bytes = le_bytes, WriteInt = (\<lambda>n. Inr (be_uint32 n))\<rparr>"

subsection \<open>Definitions for the statements\<close>

text \<open>
  \<open>logged rc\<close> is the method \<open>rc\<close> with a record kept beside the world: each call adds
  the chunk it was given and the error it returned.
\<close>

definition logged ::
  "('r \<Rightarrow> 'z list \<Rightarrow> 'w \<Rightarrow> error option \<times> 'w) \<Rightarrow>
   'r \<Rightarrow> 'z list \<Rightarrow> 'w \<times> ('z list \<times> error option) list \<Rightarrow>
   error option \<times> ('w \<times> ('z list \<times> error option) list)" where
  "logged rc rcvr chunk = (\<lambda>(w, calls).
     case rc rcvr chunk w of (err, w') \<Rightarrow> (err, (w', calls @ [(chunk, err)])))"

text \<open>The chunks of at most 100 elements that the spec describes.\<close>

function chunks_of :: "'a list \<Rightarrow> 'a list list" where
  "chunks_of items =
     (if items = [] then [] else take 100 items # chunks_of (drop 100 items))"
  by pat_completeness auto
termination
  by (relation "measure length") auto

text \<open>The value of \<^verbatim>\<open>resultErr\<close> after a chunk that returned \<open>err\<close> (lines 333 to 339).\<close>

definition resultErr_after :: "error option \<Rightarrow> error option \<Rightarrow> error option" where
  "resultErr_after resultErr err =
     (case err of
        None \<Rightarrow> resultErr
      | Some e \<Rightarrow> (case resultErr of None \<Rightarrow> Some (Mask e) | Some r \<Rightarrow> Some (NotefDetails r e)))"

text \<open>The calls of \<^verbatim>\<open>Stop\<close> that only write to the log.\<close>

definition is_log :: "call \<Rightarrow> bool" where
  "is_log c =
     (case c of
        LogInfo m \<Rightarrow> True
      | LogError err \<Rightarrow> True
      | LogErrorf m err \<Rightarrow> True
      | LogWarningf m err \<Rightarrow> True
      | LogErrorStats \<Rightarrow> True
      | _ \<Rightarrow> False)"

text \<open>The worlds that \<^verbatim>\<open>handleRecovery\<close> goes through for a list of \<^verbatim>\<open>Recover\<close>s.\<close>

definition recovered_all ::
  "('z Recover \<Rightarrow> 'z list \<Rightarrow> 'w \<Rightarrow> error option \<times> 'w) \<Rightarrow> 'z Recover list \<Rightarrow> 'w \<Rightarrow> 'w" where
  "recovered_all rc rs w = fold (\<lambda>rcvr w. snd (requestRecovered_with rc rcvr w)) rs w"

text \<open>
  The calls on the engine that a change asks for, by digest, in the order of
  \<^verbatim>\<open>updateDigests\<close>, and the digests that \<^verbatim>\<open>hex.DecodeString\<close> accepts.
\<close>

definition asked_calls :: "KeyChange \<Rightarrow> string engine_call list" where
  "asked_calls change = map Insert (InsertDigests change) @ map Remove (RemoveDigests change)"

fun argument :: "'a engine_call \<Rightarrow> 'a" where
  "argument (Insert d) = d"
| "argument (Remove d) = d"

definition valid_digest :: "string \<Rightarrow> bool" where
  "valid_digest d = (case hex_DecodeString d of Inl err \<Rightarrow> False | Inr buf \<Rightarrow> True)"

text \<open>The bucket of a time in a \<open>LoadStatMap\<close>, and the counting of one change in it.\<close>

definition bucket :: "LoadStatMap \<Rightarrow> Time \<Rightarrow> LoadStat" where
  "bucket m t = (case m t of Some (Some ls) \<Rightarrow> ls | _ \<Rightarrow> \<lparr>Inserted = 0, Updated = 0\<rparr>)"

definition counted :: "change_kind \<Rightarrow> LoadStat \<Rightarrow> LoadStat" where
  "counted k ls =
     (case k of
        KeyAdded \<Rightarrow> ls\<lparr>Inserted := Inserted ls + 1\<rparr>
      | KeyReplaced \<Rightarrow> ls\<lparr>Updated := Updated ls + 1\<rparr>
      | KeyOther \<Rightarrow> ls)"

text \<open>
  A transport that answers every request with status 200 and an empty body, and keeps
  the address and the body of each request it was sent.
\<close>

definition recording :: "(string \<times> byte list) list transport" where
  "recording =
     \<lparr>Post = (\<lambda>url body w. (Inr (200, []), w @ [(url, body)])), Merge = (\<lambda>bodyBuf w. (None, w))\<rparr>"

text \<open>
  \<open>posting T\<close> is the transport \<open>T\<close> with a record kept beside the world: each
  \<^verbatim>\<open>http.Post\<close> adds the address and the body of the request it sends.
\<close>

definition posting :: "'w transport \<Rightarrow> ('w \<times> (string \<times> byte list) list) transport" where
  "posting T =
     \<lparr>Post = (\<lambda>url body (w, posts).
               case Post T url body w of (res, w') \<Rightarrow> (res, (w', posts @ [(url, body)]))),
      Merge = (\<lambda>bodyBuf (w, posts).
               case Merge T bodyBuf w of (err, w') \<Rightarrow> (err, (w', posts)))\<rparr>"

section \<open>Properties\<close>

declare requestRecovered_loop.simps [simp del]

declare chunks_of.simps [simp del]

declare le_bytes.simps [simp del]

subsection \<open>requestRecovered\<close>

lemma loop_Nil: "requestRecovered_loop rc rcvr [] resultErr w = (resultErr, w)"
  by (simp add: requestRecovered_loop.simps)

lemma loop_step:
  "items \<noteq> [] \<Longrightarrow>
   requestRecovered_loop rc rcvr items resultErr w =
     (case rc rcvr (take 100 items) w of
        (err, w') \<Rightarrow> requestRecovered_loop rc rcvr (drop 100 items) (resultErr_after resultErr err) w')"
  by (subst requestRecovered_loop.simps)
     (auto simp: requestChunkSize_def resultErr_after_def Let_def split: prod.splits)

lemma resultErr_after_None: "resultErr_after r e = None \<longleftrightarrow> r = None \<and> e = None"
  by (auto simp: resultErr_after_def split: option.splits)

lemma chunks_of_Nil: "chunks_of [] = []"
  by (simp add: chunks_of.simps)

lemma chunks_of_step: "items \<noteq> [] \<Longrightarrow> chunks_of items = take 100 items # chunks_of (drop 100 items)"
  by (subst chunks_of.simps) simp


lemma logged_step:
  assumes "items \<noteq> []" and "rc rcvr (take 100 items) w = (err, w')"
  shows "requestRecovered_loop (logged rc) rcvr items r (w, calls) =
     requestRecovered_loop (logged rc) rcvr (drop 100 items) (resultErr_after r err)
       (w', calls @ [(take 100 items, err)])"
  by (subst loop_step [OF assms(1)]) (simp add: logged_def assms(2))

lemma loop_logged_chunks:
  "map fst (snd (snd (requestRecovered_loop (logged rc) rcvr items r (w, calls)))) =
     map fst calls @ chunks_of items"
proof (induction items arbitrary: r w calls rule: chunks_of.induct)
  case (1 items)
  show ?case
  proof (cases "items = []")
    case True
    then show ?thesis by (simp add: loop_Nil chunks_of_Nil)
  next
    case False
    obtain err w' where rc: "rc rcvr (take 100 items) w = (err, w')"
      by (cases "rc rcvr (take 100 items) w")
    have step: "requestRecovered_loop (logged rc) rcvr items r (w, calls) =
        requestRecovered_loop (logged rc) rcvr (drop 100 items) (resultErr_after r err)
          (w', calls @ [(take 100 items, err)])"
      using False rc by (rule logged_step)
    show ?thesis
      unfolding step "1.IH" [OF False] chunks_of_step [OF False]
      by simp
  qed
qed

lemma loop_logged_error:
  "(r = None \<longleftrightarrow> list_all (\<lambda>c. snd c = None) calls) \<Longrightarrow>
   (fst (requestRecovered_loop (logged rc) rcvr items r (w, calls)) = None
     \<longleftrightarrow> list_all (\<lambda>c. snd c = None)
           (snd (snd (requestRecovered_loop (logged rc) rcvr items r (w, calls)))))"
proof (induction items arbitrary: r w calls rule: chunks_of.induct)
  case (1 items)
  show ?case
  proof (cases "items = []")
    case True
    with "1.prems" show ?thesis by (simp add: loop_Nil)
  next
    case False
    obtain err w' where rc: "rc rcvr (take 100 items) w = (err, w')"
      by (cases "rc rcvr (take 100 items) w")
    have inv: "resultErr_after r err = None
        \<longleftrightarrow> list_all (\<lambda>c. snd c = None) (calls @ [(take 100 items, err)])"
      using "1.prems" by (simp add: resultErr_after_None)
    have step: "requestRecovered_loop (logged rc) rcvr items r (w, calls) =
        requestRecovered_loop (logged rc) rcvr (drop 100 items) (resultErr_after r err)
          (w', calls @ [(take 100 items, err)])"
      using False rc by (rule logged_step)
    show ?thesis
      unfolding step by (rule "1.IH" [OF False inv])
  qed
qed

lemma loop_logged_erase:
  "fst (requestRecovered_loop (logged rc) rcvr items r (w, calls)) =
     fst (requestRecovered_loop rc rcvr items r w)
   \<and> fst (snd (requestRecovered_loop (logged rc) rcvr items r (w, calls))) =
     snd (requestRecovered_loop rc rcvr items r w)"
proof (induction items arbitrary: r w calls rule: chunks_of.induct)
  case (1 items)
  show ?case
  proof (cases "items = []")
    case True
    then show ?thesis by (simp add: loop_Nil)
  next
    case False
    obtain err w' where rc: "rc rcvr (take 100 items) w = (err, w')"
      by (cases "rc rcvr (take 100 items) w")
    have l: "requestRecovered_loop (logged rc) rcvr items r (w, calls) =
        requestRecovered_loop (logged rc) rcvr (drop 100 items) (resultErr_after r err)
          (w', calls @ [(take 100 items, err)])"
      by (subst loop_step [OF False]) (simp add: logged_def rc)
    have p: "requestRecovered_loop rc rcvr items r w =
        requestRecovered_loop rc rcvr (drop 100 items) (resultErr_after r err) w'"
      by (subst loop_step [OF False]) (simp add: rc)
    show ?thesis
      unfolding l p by (rule "1.IH" [OF False])
  qed
qed


lemma concat_chunks_of: "concat (chunks_of items) = items"
proof (induction items rule: chunks_of.induct)
  case (1 items)
  show ?case
  proof (cases "items = []")
    case True then show ?thesis by (simp add: chunks_of_Nil)
  next
    case False
    with "1.IH" show ?thesis by (simp add: chunks_of_step)
  qed
qed

lemma ceil_div_step: "0 < (n::nat) \<Longrightarrow> Suc ((n - 100 + 99) div 100) = (n + 99) div 100"
proof (cases "n < 100")
  case True
  assume "0 < n"
  with True have "(n + 99) div 100 = 1" by simp
  with True show ?thesis by simp
next
  case False
  then have "n + 99 = (n - 100 + 99) + 100" by simp
  then have "(n + 99) div 100 = (n - 100 + 99) div 100 + 1"
    by (metis div_add_self2 zero_neq_numeral)
  then show ?thesis by simp
qed

lemma length_chunks_of: "length (chunks_of items) = (length items + 99) div 100"
proof (induction items rule: chunks_of.induct)
  case (1 items)
  show ?case
  proof (cases "items = []")
    case True then show ?thesis by (simp add: chunks_of_Nil)
  next
    case False
    then have pos: "0 < length items" by simp
    have "length (chunks_of items) = Suc ((length items - 100 + 99) div 100)"
      using "1.IH" [OF False] by (simp add: chunks_of_step [OF False])
    then show ?thesis
      by (simp only: ceil_div_step [OF pos])
  qed
qed

lemma nth_chunks_of:
  "k < length (chunks_of items) \<Longrightarrow> chunks_of items ! k = take 100 (drop (100 * k) items)"
proof (induction items arbitrary: k rule: chunks_of.induct)
  case (1 items)
  show ?case
  proof (cases "items = []")
    case True with "1.prems" show ?thesis by (simp add: chunks_of_Nil)
  next
    case False
    note unf = chunks_of_step [OF False]
    show ?thesis
    proof (cases k)
      case 0 then show ?thesis by (simp add: unf)
    next
      case (Suc j)
      with "1.prems" have "j < length (chunks_of (drop 100 items))" by (simp add: unf)
      from "1.IH" [OF False this] Suc show ?thesis
        by (simp add: unf add.commute)
    qed
  qed
qed


lemma length_nth_chunks_of:
  "k < length (chunks_of items) \<Longrightarrow> length (chunks_of items ! k) = min 100 (length items - 100 * k)"
  by (simp add: nth_chunks_of min.commute)

text \<open>
  The calls of \<^verbatim>\<open>requestChunk\<close>: for \<open>n\<close> remote elements there are \<open>\<lceil>n / 100\<rceil>\<close> of
  them, whatever they return; call \<open>k\<close> (from 0) is given \<open>min 100 (n - 100 k)\<close>
  elements, and the chunks, one after the other, are the remote elements in their order.
\<close>

lemma requestRecovered_calls:
  "let calls = snd (snd (requestRecovered_with (logged rc) rcvr (w, [])));
       n = length (RemoteElements rcvr)
   in length calls = (n + 99) div 100
      \<and> (\<forall>k<length calls. length (fst (calls ! k)) = min 100 (n - 100 * k))
      \<and> concat (map fst calls) = RemoteElements rcvr"
proof -
  let ?calls = "snd (snd (requestRecovered_with (logged rc) rcvr (w, [])))"
  have m: "map fst ?calls = chunks_of (RemoteElements rcvr)"
    using loop_logged_chunks [of rc rcvr "RemoteElements rcvr" None w "[]"]
    by (simp add: requestRecovered_with_def)
  have len: "length ?calls = length (chunks_of (RemoteElements rcvr))"
    using arg_cong [OF m, of length] by simp
  have nth: "length (fst (?calls ! k)) = min 100 (length (RemoteElements rcvr) - 100 * k)"
    if "k < length ?calls" for k
  proof -
    have "fst (?calls ! k) = map fst ?calls ! k"
      using that by simp
    then show ?thesis
      using that unfolding m len by (simp only: length_nth_chunks_of)
  qed
  show ?thesis
    unfolding Let_def
  proof (intro conjI allI impI)
    show "length ?calls = (length (RemoteElements rcvr) + 99) div 100"
      unfolding len by (rule length_chunks_of)
    show "length (fst (?calls ! k)) = min 100 (length (RemoteElements rcvr) - 100 * k)"
      if "k < length ?calls" for k
      using that by (rule nth)
    show "concat (map fst ?calls) = RemoteElements rcvr"
      unfolding m by (rule concat_chunks_of)
  qed
qed

text \<open>
  Claim C2. Whatever the round-trips return, every chunk is attempted: for each \<open>k\<close>
  below \<open>\<lceil>n / 100\<rceil>\<close> there is a call \<open>k\<close>, and it carries elements \<open>100 k\<close> up to
  \<open>100 k + 99\<close>. \<^verbatim>\<open>requestRecovered\<close> returns nil exactly when every call returned nil,
  so it returns an error exactly when some call did.
\<close>

theorem requestRecovered_partial_failure:
  "let calls = snd (snd (requestRecovered_with (logged rc) rcvr (w, [])));
       items = RemoteElements rcvr
   in (\<forall>k<(length items + 99) div 100.
         k < length calls \<and> fst (calls ! k) = take 100 (drop (100 * k) items))
      \<and> (fst (requestRecovered_with rc rcvr w) = None \<longleftrightarrow> (\<forall>c\<in>set calls. snd c = None))"
proof -
  let ?calls = "snd (snd (requestRecovered_with (logged rc) rcvr (w, [])))"
  let ?items = "RemoteElements rcvr"
  have m: "map fst ?calls = chunks_of ?items"
    using loop_logged_chunks [of rc rcvr ?items None w "[]"]
    by (simp add: requestRecovered_with_def)
  have len: "length ?calls = (length ?items + 99) div 100"
    using arg_cong [OF m, of length] by (simp add: length_chunks_of)
  have nth: "fst (?calls ! k) = take 100 (drop (100 * k) ?items)" if "k < length ?calls" for k
  proof -
    have "fst (?calls ! k) = map fst ?calls ! k"
      using that by simp
    also have "\<dots> = take 100 (drop (100 * k) ?items)"
      unfolding m using that len by (simp add: nth_chunks_of length_chunks_of)
    finally show ?thesis .
  qed
  have "fst (requestRecovered_with (logged rc) rcvr (w, [])) = None
      \<longleftrightarrow> list_all (\<lambda>c. snd c = None) ?calls"
    unfolding requestRecovered_with_def by (rule loop_logged_error) simp
  moreover have "fst (requestRecovered_with (logged rc) rcvr (w, [])) =
      fst (requestRecovered_with rc rcvr w)"
    unfolding requestRecovered_with_def by (simp add: loop_logged_erase)
  ultimately have err: "fst (requestRecovered_with rc rcvr w) = None
      \<longleftrightarrow> (\<forall>c\<in>set ?calls. snd c = None)"
    by (simp add: list_all_iff)
  show ?thesis
    unfolding Let_def using len nth err by simp
qed

theorem requestRecovered_partial_failure_witness:
  "let rc = (\<lambda>r c w. (if 100 \<in> set c then Some (Other ''timeout'') else None, Suc w));
       rcvr = \<lparr>RemoteElements = [0..<250], HkpAddr = Inr ''peer''\<rparr>;
       calls = snd (snd (requestRecovered_with (logged rc) rcvr (0::nat, [])))
   in calls = [([0..<100], None), ([100..<200], Some (Other ''timeout'')), ([200..<250], None)]
      \<and> requestRecovered_with rc rcvr 0 = (Some (Mask (Other ''timeout'')), 3)"
  using requestRecovered_partial_failure [of
      "\<lambda>r c w. (if 100 \<in> set c then Some (Other ''timeout'') else None, Suc w)"
      "\<lparr>RemoteElements = [0..<250], HkpAddr = Inr ''peer''\<rparr>" "0::nat"]
  by (simp add: requestRecovered_with_def loop_step loop_Nil logged_def resultErr_after_def
      upt_conv_Cons [of 100] upt_conv_Cons [of 0] upt_conv_Cons [of 200])

subsection \<open>handleRecovery\<close>

lemma handleRecovery_Recovered:
  "handleRecovery_with rc (map Recovered rs @ evs) w =
     handleRecovery_with rc evs (recovered_all rc rs w)"
  by (induction rs arbitrary: w) (simp_all add: recovered_all_def split: prod.splits)

lemma handleRecovery_returned:
  "fst (handleRecovery_with rc evs w) = Some err \<Longrightarrow> err = None \<and> Dying \<in> set evs"
  by (induction rc evs w rule: handleRecovery_with.induct) (auto split: prod.splits)

text \<open>
  Claim C10. The loop drops what \<^verbatim>\<open>requestRecovered\<close> returns. After any list of
  \<^verbatim>\<open>Recover\<close>s, failed or not, it has processed each of them and still waits; once the
  tomb is dying it returns nil; and whenever it has returned, it returned nil and the
  tomb was dying.
\<close>

theorem handleRecovery_discards_errors:
  "handleRecovery_with rc (map Recovered rs) w = (None, recovered_all rc rs w)
   \<and> handleRecovery_with rc (map Recovered rs @ Dying # evs) w = (Some None, recovered_all rc rs w)
   \<and> (\<forall>err. fst (handleRecovery_with rc evs' w) = Some err \<longrightarrow> err = None \<and> Dying \<in> set evs')"
proof (intro conjI allI impI)
  show "handleRecovery_with rc (map Recovered rs) w = (None, recovered_all rc rs w)"
    using handleRecovery_Recovered [of rc rs "[]" w] by simp
  show "handleRecovery_with rc (map Recovered rs @ Dying # evs) w = (Some None, recovered_all rc rs w)"
    by (simp add: handleRecovery_Recovered)
  show "err = None" if "fst (handleRecovery_with rc evs' w) = Some err" for err
    using handleRecovery_returned [OF that] by simp
  show "Dying \<in> set evs'" if "fst (handleRecovery_with rc evs' w) = Some err" for err
    using handleRecovery_returned [OF that] by simp
qed

theorem handleRecovery_discards_errors_witness:
  "let r1 = \<lparr>RemoteElements = [1, 2, 3], HkpAddr = Inl (Other ''no http address'')\<rparr>
   in fst (requestRecovered sks recording r1 []) = Some (Mask (Mask (Other ''no http address'')))
      \<and> handleRecovery sks recording [Recovered r1, Recovered r1] [] = (None, [])
      \<and> handleRecovery sks recording [Recovered r1, Dying, Recovered r1] [] = (Some None, [])"
  using handleRecovery_discards_errors [of "requestChunk sks recording"
      "[\<lparr>RemoteElements = [1, 2, 3], HkpAddr = Inl (Other ''no http address'')\<rparr>]" "[]"
      "[Recovered \<lparr>RemoteElements = [1, 2, 3], HkpAddr = Inl (Other ''no http address'')\<rparr>]"
      "[Dying]"]
  by (simp add: handleRecovery_def requestRecovered_def requestRecovered_with_def loop_step loop_Nil
      resultErr_after_def requestChunk_def)

subsection \<open>Stop\<close>

text \<open>
  Claim C5 as the spec states it, for every shutdown, fails where \<^verbatim>\<open>r.t.Wait()\<close> does
  not return: \<^verbatim>\<open>Stop\<close> has killed the tomb and waits, and it has not stopped the engine,
  closed the prefix tree or saved the stats.
\<close>

theorem Stop_all_steps_counterexample:
  "Stop Blocks (Returns None) (Returns None) None None
     = ([LogInfo ''recon processing: stopping'', TombKill, TombWait], False)"
  by (simp add: Stop_def)

text \<open>
  Claim C5, amended. When \<^verbatim>\<open>r.t.Wait()\<close>, \<^verbatim>\<open>r.peer.Stop()\<close> and \<^verbatim>\<open>r.ptree.Close()\<close>
  return, \<^verbatim>\<open>Stop\<close> returns, and whatever errors they, \<^verbatim>\<open>os.Create\<close> and the encoder
  returned it has made the same calls in the same order, the log entries apart: it has
  killed the tomb and waited for it, stopped the engine, closed the prefix tree and saved
  the stats (create, encode, close). When one of the three does not return, \<^verbatim>\<open>Stop\<close>
  does not return, and it has made the calls up to that one and none after it.
\<close>

theorem Stop_all_steps:
  "snd (Stop (Returns werr) (Returns serr) (Returns cerr) create encode)
   \<and> filter (\<lambda>c. \<not> is_log c) (fst (Stop (Returns werr) (Returns serr) (Returns cerr) create encode))
       = [TombKill, TombWait, PeerStop, PtreeClose, StatsCreate, StatsEncode, StatsClose]
   \<and> \<not> snd (Stop Blocks stop close create encode)
   \<and> filter (\<lambda>c. \<not> is_log c) (fst (Stop Blocks stop close create encode))
       = [TombKill, TombWait]
   \<and> \<not> snd (Stop (Returns werr) Blocks close create encode)
   \<and> filter (\<lambda>c. \<not> is_log c) (fst (Stop (Returns werr) Blocks close create encode))
       = [TombKill, TombWait, PeerStop]
   \<and> \<not> snd (Stop (Returns werr) (Returns serr) Blocks create encode)
   \<and> filter (\<lambda>c. \<not> is_log c) (fst (Stop (Returns werr) (Returns serr) Blocks create encode))
       = [TombKill, TombWait, PeerStop, PtreeClose]"
  by (simp add: Stop_def saveStats_def is_log_def Let_def split: option.splits)

theorem Stop_all_steps_witness:
  "Stop (Returns (Some (Other ''tomb''))) (Returns (Some (Other ''engine'')))
       (Returns (Some (Other ''tree''))) (Some (Other ''create'')) None =
     ([LogInfo ''recon processing: stopping'', TombKill, TombWait, LogError (Other ''tomb''),
       LogInfo ''recon processing: stopped'', LogInfo ''recon peer: stopping'', PeerStop,
       LogError (Mask (Other ''engine'')), LogInfo ''recon peer: stopped'', PtreeClose,
       LogErrorf ''error closing prefix tree'' (Other ''tree''),
       StatsCreate, LogWarningf ''cannot open stats'' (Other ''create''), StatsEncode,
       LogErrorStats, StatsClose], True)
   \<and> filter (\<lambda>c. \<not> is_log c)
        (fst (Stop (Returns (Some (Other ''tomb''))) (Returns (Some (Other ''engine'')))
                (Returns (Some (Other ''tree''))) (Some (Other ''create'')) None)) =
     [TombKill, TombWait, PeerStop, PtreeClose, StatsCreate, StatsEncode, StatsClose]
   \<and> Stop (Returns (Some (Other ''tomb''))) Blocks (Returns None) None None =
     ([LogInfo ''recon processing: stopping'', TombKill, TombWait, LogError (Other ''tomb''),
       LogInfo ''recon processing: stopped'', LogInfo ''recon peer: stopping'', PeerStop], False)"
  using Stop_all_steps [of "Some (Other ''tomb'')" "Some (Other ''engine'')" "Some (Other ''tree'')"
      "Some (Other ''create'')" None Blocks "Returns None"]
  by (simp add: Stop_def saveStats_def)

subsection \<open>prune\<close>

lemma Hourly_prune:
  "Hourly (prune now1 now2 s) k =
     (if instant k < instant now1 - 24 * Hour then None else Hourly s k)"
  by (simp add: prune_def Let_def Time_Before_def Time_Add_def Time_UTC_def)

lemma Daily_prune:
  "Daily (prune now1 now2 s) k =
     (if instant k < instant now2 - 7 * (24 * Hour) then None else Daily s k)"
  by (simp add: prune_def Let_def Time_Before_def Time_Add_def Time_UTC_def)

lemma Total_prune: "Total (prune now1 now2 s) = Total s"
  by (simp add: prune_def Let_def)

text \<open>
  Claim C6. After \<^verbatim>\<open>prune\<close>, an hourly bucket whose time is before the clock's reading
  less 24 hours is gone, a daily bucket whose time is before the clock's reading less 7
  days is gone, and every other bucket is there with the counters it had. \<^verbatim>\<open>prune\<close>
  reads the clock once for each of the two bounds.
\<close>

theorem prune_buckets:
  "(\<forall>k. instant k < instant now1 - 24 * Hour \<longrightarrow> Hourly (prune now1 now2 s) k = None)
   \<and> (\<forall>k. instant k < instant now2 - 7 * (24 * Hour) \<longrightarrow> Daily (prune now1 now2 s) k = None)
   \<and> (\<forall>k. \<not> instant k < instant now1 - 24 * Hour \<longrightarrow> Hourly (prune now1 now2 s) k = Hourly s k)
   \<and> (\<forall>k. \<not> instant k < instant now2 - 7 * (24 * Hour) \<longrightarrow> Daily (prune now1 now2 s) k = Daily s k)
   \<and> Total (prune now1 now2 s) = Total s"
  by (simp add: Hourly_prune Daily_prune Total_prune)

theorem prune_buckets_witness:
  "let now = \<lparr>instant = 1000 * Hour, location = Zone 1\<rparr>;
       old = \<lparr>instant = 975 * Hour, location = UTC\<rparr>;
       edge = \<lparr>instant = 976 * Hour, location = UTC\<rparr>;
       week = \<lparr>instant = 816 * Hour, location = UTC\<rparr>;
       s = \<lparr>Total = 9,
            Hourly = [old \<mapsto> Some \<lparr>Inserted = 1, Updated = 2\<rparr>, edge \<mapsto> Some \<lparr>Inserted = 3, Updated = 4\<rparr>],
            Daily = [week \<mapsto> Some \<lparr>Inserted = 5, Updated = 6\<rparr>, edge \<mapsto> Some \<lparr>Inserted = 7, Updated = 8\<rparr>]\<rparr>
   in Hourly (prune now now s) old = None
      \<and> Hourly (prune now now s) edge = Some (Some \<lparr>Inserted = 3, Updated = 4\<rparr>)
      \<and> Daily (prune now now s) week = None
      \<and> Daily (prune now now s) edge = Some (Some \<lparr>Inserted = 7, Updated = 8\<rparr>)
      \<and> Total (prune now now s) = 9"
  using prune_buckets [of "\<lparr>instant = 1000 * Hour, location = Zone 1\<rparr>"
      "\<lparr>instant = 1000 * Hour, location = Zone 1\<rparr>"
      "\<lparr>Total = 9,
        Hourly = [\<lparr>instant = 975 * Hour, location = UTC\<rparr> \<mapsto> Some \<lparr>Inserted = 1, Updated = 2\<rparr>,
                  \<lparr>instant = 976 * Hour, location = UTC\<rparr> \<mapsto> Some \<lparr>Inserted = 3, Updated = 4\<rparr>],
        Daily = [\<lparr>instant = 816 * Hour, location = UTC\<rparr> \<mapsto> Some \<lparr>Inserted = 5, Updated = 6\<rparr>,
                 \<lparr>instant = 976 * Hour, location = UTC\<rparr> \<mapsto> Some \<lparr>Inserted = 7, Updated = 8\<rparr>]\<rparr>"]
  by (simp add: Hour_def)

subsection \<open>loadStats\<close>

text \<open>
  Claim C4 as the spec states it, for every stats file and every state of the prefix
  tree, fails where \<^verbatim>\<open>p.ptree.Root()\<close> returns an error: \<^verbatim>\<open>loadStats\<close> logs a warning
  and leaves \<open>Total\<close> as the file gave it.
\<close>

theorem loadStats_Total_counterexample:
  "loadStats (Opened (Some (newStats\<lparr>Total := 5\<rparr>)) None) (Inl (Other ''no root''))
     = Inr (Some (newStats\<lparr>Total := 5\<rparr>))"
  by (simp add: loadStats_def)

text \<open>
  Claim C4, amended. When \<^verbatim>\<open>p.ptree.Root()\<close> returns a node, then for every stats file
  (missing, unreadable, corrupt or sound) that leaves \<^verbatim>\<open>stats\<close> pointing to a value,
  \<^verbatim>\<open>loadStats\<close> returns and \<open>Total\<close> is the size of the root, not the number from the
  file. When \<^verbatim>\<open>Root()\<close> returns an error, \<^verbatim>\<open>p.stats\<close> is what the file left: \<open>Total\<close>
  is the number from the file, or 0 for a file that could not be opened.
\<close>

theorem loadStats_Total:
  "(\<forall>rootSize. root = Inr rootSize \<and> (\<forall>err. file \<noteq> Opened None err) \<longrightarrow>
      (\<exists>s. loadStats file root = Inr (Some s) \<and> Total s = rootSize))
   \<and> (\<forall>e. root = Inl e \<longrightarrow>
      loadStats file root =
        Inr (case file of NotExist \<Rightarrow> Some newStats | OpenError err \<Rightarrow> Some newStats
             | Opened st err \<Rightarrow> st))"
  by (cases "file") (auto simp: loadStats_def split: option.splits)

theorem loadStats_Total_witness:
  "loadStats (Opened (Some (newStats\<lparr>Total := 5\<rparr>)) (Some (Other ''unexpected end of JSON input'')))
       (Inr 42)
     = Inr (Some (newStats\<lparr>Total := 42\<rparr>))
   \<and> loadStats NotExist (Inr 42) = Inr (Some (newStats\<lparr>Total := 42\<rparr>))
   \<and> loadStats (OpenError (Other ''permission denied'')) (Inl (Other ''no root'')) = Inr (Some newStats)"
  using loadStats_Total [of "Inr 42"
      "Opened (Some (newStats\<lparr>Total := 5\<rparr>)) (Some (Other ''unexpected end of JSON input''))"]
    loadStats_Total [of "Inr 42" NotExist]
    loadStats_Total [of "Inl (Other ''no root'')" "OpenError (Other ''permission denied'')"]
  by (simp add: loadStats_def)

subsection \<open>updateDigests\<close>

lemma le_val_zeros: "le_val (replicate n 0) = 0"
  by (induction n) simp_all

lemma DigestZp_valid: "valid_digest d \<Longrightarrow> \<exists>z. DigestZp L d = Inr z"
  by (auto simp: valid_digest_def DigestZp_def split: sum.splits)

lemma DigestZp_invalid:
  "\<not> valid_digest d \<Longrightarrow>
   \<exists>e. hex_DecodeString d = Inl e \<and> DigestZp L d = Inl (Mask e)"
  by (auto simp: valid_digest_def DigestZp_def split: sum.splits)

lemma insertDigests_stats: "stats (snd (insertDigests L ds r)) = stats r"
  by (induction ds arbitrary: r) (auto split: sum.splits)

lemma removeDigests_stats: "stats (snd (removeDigests L ds r)) = stats r"
  by (induction ds arbitrary: r) (auto split: sum.splits)

lemma insertDigests_valid:
  "list_all valid_digest ds \<Longrightarrow>
   insertDigests L ds r = (None, r\<lparr>peer := peer r @ map (\<lambda>d. Insert (projr (DigestZp L d))) ds\<rparr>)"
proof (induction ds arbitrary: r)
  case Nil
  then show ?case by simp
next
  case (Cons d ds)
  then have "valid_digest d" and ds: "list_all valid_digest ds"
    by simp_all
  then have "\<exists>z. DigestZp L d = Inr z"
    by (simp add: DigestZp_valid)
  then obtain z where d: "DigestZp L d = Inr z" ..
  show ?case
    by (simp add: d Cons.IH [OF ds])
qed

lemma removeDigests_valid:
  "list_all valid_digest ds \<Longrightarrow>
   removeDigests L ds r = (None, r\<lparr>peer := peer r @ map (\<lambda>d. Remove (projr (DigestZp L d))) ds\<rparr>)"
proof (induction ds arbitrary: r)
  case Nil
  then show ?case by simp
next
  case (Cons d ds)
  then have "valid_digest d" and ds: "list_all valid_digest ds"
    by simp_all
  then have "\<exists>z. DigestZp L d = Inr z"
    by (simp add: DigestZp_valid)
  then obtain z where d: "DigestZp L d = Inr z" ..
  show ?case
    by (simp add: d Cons.IH [OF ds])
qed

lemma insertDigests_invalid:
  "find (\<lambda>d. \<not> valid_digest d) ds = Some bad \<Longrightarrow>
   \<exists>e. hex_DecodeString bad = Inl e
     \<and> insertDigests L ds r =
         (Some (NotefBadDigest (Mask e) bad),
          r\<lparr>peer := peer r @ map (\<lambda>d. Insert (projr (DigestZp L d))) (takeWhile valid_digest ds)\<rparr>)"
proof (induction ds arbitrary: r)
  case Nil
  then show ?case by simp
next
  case (Cons d ds)
  show ?case
  proof (cases "valid_digest d")
    case True
    then have "\<exists>z. DigestZp L d = Inr z"
      by (rule DigestZp_valid)
    then obtain z where d: "DigestZp L d = Inr z" ..
    from True Cons.prems have "find (\<lambda>d. \<not> valid_digest d) ds = Some bad"
      by simp
    from Cons.IH [OF this, of "r\<lparr>peer := peer r @ [Insert z]\<rparr>"]
    show ?thesis
      by (simp add: d True)
  next
    case False
    with Cons.prems have bad: "bad = d" by simp
    from DigestZp_invalid [OF False, of L] show ?thesis
      by (auto simp: bad False)
  qed
qed

lemma removeDigests_invalid:
  "find (\<lambda>d. \<not> valid_digest d) ds = Some bad \<Longrightarrow>
   \<exists>e. hex_DecodeString bad = Inl e
     \<and> removeDigests L ds r =
         (Some (NotefBadDigest (Mask e) bad),
          r\<lparr>peer := peer r @ map (\<lambda>d. Remove (projr (DigestZp L d))) (takeWhile valid_digest ds)\<rparr>)"
proof (induction ds arbitrary: r)
  case Nil
  then show ?case by simp
next
  case (Cons d ds)
  show ?case
  proof (cases "valid_digest d")
    case True
    then have "\<exists>z. DigestZp L d = Inr z"
      by (rule DigestZp_valid)
    then obtain z where d: "DigestZp L d = Inr z" ..
    from True Cons.prems have "find (\<lambda>d. \<not> valid_digest d) ds = Some bad"
      by simp
    from Cons.IH [OF this, of "r\<lparr>peer := peer r @ [Remove z]\<rparr>"]
    show ?thesis
      by (simp add: d True)
  next
    case False
    with Cons.prems have bad: "bad = d" by simp
    from DigestZp_invalid [OF False, of L] show ?thesis
      by (auto simp: bad False)
  qed
qed

lemma applyDigests_stats: "stats (snd (applyDigests L change r)) = stats r"
proof -
  obtain e r' where i: "insertDigests L (InsertDigests change) r = (e, r')"
    by (cases "insertDigests L (InsertDigests change) r")
  have r': "stats r' = stats r"
    using insertDigests_stats [of L "InsertDigests change" r] by (simp add: i)
  show ?thesis
  proof (cases e)
    case None
    then show ?thesis
      using removeDigests_stats [of L "RemoveDigests change" r']
      by (simp add: applyDigests_def i r')
  next
    case (Some err)
    then show ?thesis
      by (simp add: applyDigests_def i r')
  qed
qed

lemma takeWhile_asked:
  "map argument (takeWhile (valid_digest \<circ> argument) (map Insert ds)) = takeWhile valid_digest ds"
  "map argument (takeWhile (valid_digest \<circ> argument) (map Remove ds)) = takeWhile valid_digest ds"
  by (induction ds) simp_all

lemma decoded_calls:
  "list_all valid_digest ds \<Longrightarrow>
   map (map_engine_call Inr) (map (\<lambda>d. Insert (projr (DigestZp L d))) ds) =
     map (map_engine_call (DigestZp L)) (map Insert ds)"
  "list_all valid_digest ds \<Longrightarrow>
   map (map_engine_call Inr) (map (\<lambda>d. Remove (projr (DigestZp L d))) ds) =
     map (map_engine_call (DigestZp L)) (map Remove ds)"
proof -
  have "Inr (projr (DigestZp L d)) = DigestZp L d" if "valid_digest d" for d
  proof -
    from that have "\<exists>z. DigestZp L d = Inr z" by (rule DigestZp_valid)
    then obtain z where "DigestZp L d = Inr z" ..
    then show ?thesis by simp
  qed
  then show
    "list_all valid_digest ds \<Longrightarrow>
     map (map_engine_call Inr) (map (\<lambda>d. Insert (projr (DigestZp L d))) ds) =
       map (map_engine_call (DigestZp L)) (map Insert ds)"
    "list_all valid_digest ds \<Longrightarrow>
     map (map_engine_call Inr) (map (\<lambda>d. Remove (projr (DigestZp L d))) ds) =
       map (map_engine_call (DigestZp L)) (map Remove ds)"
    by (simp_all add: list_all_iff)
qed

lemma list_all_takeWhile: "list_all P (takeWhile P xs)"
  by (induction xs) simp_all

lemma takeWhile_map_Insert:
  "takeWhile (valid_digest \<circ> argument) (map Insert ds) = map Insert (takeWhile valid_digest ds)"
  by (induction ds) simp_all

lemma takeWhile_map_Remove:
  "takeWhile (valid_digest \<circ> argument) (map Remove ds) = map Remove (takeWhile valid_digest ds)"
  by (induction ds) simp_all

lemma takeWhile_append_not_all:
  "\<not> list_all P xs \<Longrightarrow> takeWhile P (xs @ ys) = takeWhile P xs"
  by (induction xs) simp_all

lemma takeWhile_append_all:
  "list_all P xs \<Longrightarrow> takeWhile P (xs @ ys) = xs @ takeWhile P ys"
  by (induction xs) simp_all

lemma list_all_asked:
  "list_all (valid_digest \<circ> argument) (map Insert ds) = list_all valid_digest ds"
  by (induction ds) simp_all

lemma find_append_Some:
  "find P (xs @ ys) = (case find P xs of Some x \<Rightarrow> Some x | None \<Rightarrow> find P ys)"
  by (induction xs) simp_all

lemma find_None_all: "find (\<lambda>d. \<not> P d) xs = None \<longleftrightarrow> list_all P xs"
  by (induction xs) simp_all

text \<open>
  The loops of \<^verbatim>\<open>updateDigests\<close>. When a digest of the change is not hexadecimal, let
  \<open>bad\<close> be the first such digest, the insert digests taken before the remove digests.
  The loops return the error of decoding \<open>bad\<close>, noted as a bad digest. The calls they
  have made on the engine are the inserts and removes of the digests before \<open>bad\<close>,
  each decoded, in order, and no call for \<open>bad\<close> or a later digest; they stay made.
\<close>

lemma applyDigests_first_bad:
  assumes "find (\<lambda>d. \<not> valid_digest d) (InsertDigests change @ RemoveDigests change) = Some bad"
  shows "\<exists>e new. hex_DecodeString bad = Inl e
     \<and> fst (applyDigests L change r) = Some (NotefBadDigest (Mask e) bad)
     \<and> peer (snd (applyDigests L change r)) = peer r @ new
     \<and> map (map_engine_call Inr) new =
         map (map_engine_call (DigestZp L)) (takeWhile (valid_digest \<circ> argument) (asked_calls change))"
proof -
  let ?r = "r"
  let ?ins = "InsertDigests change" and ?rem = "RemoveDigests change"
  show ?thesis
  proof (cases "find (\<lambda>d. \<not> valid_digest d) ?ins")
    case (Some b)
    with assms have b: "find (\<lambda>d. \<not> valid_digest d) ?ins = Some bad"
      by (simp add: find_append_Some)
    then have "\<not> list_all valid_digest ?ins"
      using find_None_all [of valid_digest ?ins] by simp
    then have tw: "takeWhile (valid_digest \<circ> argument) (asked_calls change) =
        map Insert (takeWhile valid_digest ?ins)"
      by (simp add: asked_calls_def takeWhile_append_not_all list_all_asked takeWhile_map_Insert)
    from insertDigests_invalid [OF b, of L ?r]
    obtain e where e: "hex_DecodeString bad = Inl e"
      and i: "insertDigests L ?ins ?r =
         (Some (NotefBadDigest (Mask e) bad),
          ?r\<lparr>peer := peer ?r @ map (\<lambda>d. Insert (projr (DigestZp L d))) (takeWhile valid_digest ?ins)\<rparr>)"
      by (elim exE conjE)
    show ?thesis
    proof (intro exI conjI)
      show "hex_DecodeString bad = Inl e" by (rule e)
      show "fst (applyDigests L change r) = Some (NotefBadDigest (Mask e) bad)"
        by (simp add: applyDigests_def i)
      show "peer (snd (applyDigests L change r)) =
          peer r @ map (\<lambda>d. Insert (projr (DigestZp L d))) (takeWhile valid_digest ?ins)"
        by (simp add: applyDigests_def i)
      show "map (map_engine_call Inr)
            (map (\<lambda>d. Insert (projr (DigestZp L d))) (takeWhile valid_digest ?ins)) =
          map (map_engine_call (DigestZp L)) (takeWhile (valid_digest \<circ> argument) (asked_calls change))"
        unfolding tw by (rule decoded_calls) (rule list_all_takeWhile)
    qed
  next
    case None
    then have all: "list_all valid_digest ?ins"
      by (simp add: find_None_all)
    from None assms have b: "find (\<lambda>d. \<not> valid_digest d) ?rem = Some bad"
      by (simp add: find_append_Some)
    have tw: "takeWhile (valid_digest \<circ> argument) (asked_calls change) =
        map Insert ?ins @ map Remove (takeWhile valid_digest ?rem)"
      using all by (simp add: asked_calls_def takeWhile_append_all list_all_asked takeWhile_map_Remove)
    let ?r' = "?r\<lparr>peer := peer ?r @ map (\<lambda>d. Insert (projr (DigestZp L d))) ?ins\<rparr>"
    have i: "insertDigests L ?ins ?r = (None, ?r')"
      using all by (rule insertDigests_valid)
    from removeDigests_invalid [OF b, of L ?r']
    obtain e where e: "hex_DecodeString bad = Inl e"
      and d: "removeDigests L ?rem ?r' =
         (Some (NotefBadDigest (Mask e) bad),
          ?r'\<lparr>peer := peer ?r' @ map (\<lambda>d. Remove (projr (DigestZp L d))) (takeWhile valid_digest ?rem)\<rparr>)"
      by (elim exE conjE)
    show ?thesis
    proof (intro exI conjI)
      show "hex_DecodeString bad = Inl e" by (rule e)
      show "fst (applyDigests L change r) = Some (NotefBadDigest (Mask e) bad)"
        by (simp add: applyDigests_def i d [simplified])
      show "peer (snd (applyDigests L change r)) =
          peer r @ (map (\<lambda>d. Insert (projr (DigestZp L d))) ?ins
            @ map (\<lambda>d. Remove (projr (DigestZp L d))) (takeWhile valid_digest ?rem))"
        by (simp add: applyDigests_def i d [simplified])
      show "map (map_engine_call Inr)
            (map (\<lambda>d. Insert (projr (DigestZp L d))) ?ins
              @ map (\<lambda>d. Remove (projr (DigestZp L d))) (takeWhile valid_digest ?rem)) =
          map (map_engine_call (DigestZp L)) (takeWhile (valid_digest \<circ> argument) (asked_calls change))"
        unfolding tw map_append
        by (simp only: decoded_calls(1) [OF all] decoded_calls(2) [OF list_all_takeWhile])
    qed
  qed
qed



lemma LoadStatMap_update_no_nil:
  assumes "m t \<noteq> Some None"
  shows "LoadStatMap_update m t kc = Inr (m(t \<mapsto> Some (counted (kind kc) (bucket m t))))"
proof (cases "m t")
  case None
  then show ?thesis
    by (cases "kind kc") (simp_all add: LoadStatMap_update_def counted_def bucket_def)
next
  case (Some p)
  with assms obtain ls where ls: "m t = Some (Some ls)"
    by (cases p) simp_all
  then have "m(t \<mapsto> Some ls) = m"
    by (simp add: fun_upd_idem)
  with ls show ?thesis
    by (cases "kind kc") (simp_all add: LoadStatMap_update_def counted_def bucket_def)
qed

lemma LoadStatMap_update_nil:
  "m t = Some None \<Longrightarrow>
   LoadStatMap_update m t kc = (if kind kc = KeyOther then Inr m else Inl NilPointerDereference)"
  by (cases "kind kc") (simp_all add: LoadStatMap_update_def)

lemma Stats_update_no_nil:
  assumes "Hourly s (Time_Truncate (Time_UTC now1) Hour) \<noteq> Some None"
    and "Daily s (Time_Truncate (Time_UTC now2) (24 * Hour)) \<noteq> Some None"
  shows "Stats_update now1 now2 kc s =
     Inr (s\<lparr>Hourly := (Hourly s)(Time_Truncate (Time_UTC now1) Hour \<mapsto>
                 Some (counted (kind kc) (bucket (Hourly s) (Time_Truncate (Time_UTC now1) Hour)))),
            Daily := (Daily s)(Time_Truncate (Time_UTC now2) (24 * Hour) \<mapsto>
                 Some (counted (kind kc) (bucket (Daily s) (Time_Truncate (Time_UTC now2) (24 * Hour))))),
            Total := (if kind kc = KeyOther then Total s else Total s + 1)\<rparr>)"
proof -
  have h: "LoadStatMap_update (Hourly s) (Time_Truncate (Time_UTC now1) Hour) kc =
      Inr ((Hourly s)(Time_Truncate (Time_UTC now1) Hour \<mapsto>
             Some (counted (kind kc) (bucket (Hourly s) (Time_Truncate (Time_UTC now1) Hour)))))"
    using assms(1) by (rule LoadStatMap_update_no_nil)
  have d: "LoadStatMap_update (Daily s) (Time_Truncate (Time_UTC now2) (24 * Hour)) kc =
      Inr ((Daily s)(Time_Truncate (Time_UTC now2) (24 * Hour) \<mapsto>
             Some (counted (kind kc) (bucket (Daily s) (Time_Truncate (Time_UTC now2) (24 * Hour))))))"
    using assms(2) by (rule LoadStatMap_update_no_nil)
  show ?thesis
    by (cases "kind kc") (simp_all add: Stats_update_def h d)
qed

text \<open>
  \<^verbatim>\<open>updateDigests\<close> where the stats are sound: \<^verbatim>\<open>r.stats\<close> is not nil and the buckets of
  the hour and of the day are not nil pointers. It returns what its loops return, and
  the stats are counted first, whether or not a digest fails to decode.
\<close>

lemma updateDigests_sound_stats:
  assumes "stats r = Some s"
    and "Hourly s (Time_Truncate (Time_UTC now1) Hour) \<noteq> Some None"
    and "Daily s (Time_Truncate (Time_UTC now2) (24 * Hour)) \<noteq> Some None"
  shows "\<exists>s'. Stats_update now1 now2 change s = Inr s'
     \<and> updateDigests L now1 now2 change r = Inr (applyDigests L change (r\<lparr>stats := Some s'\<rparr>))
     \<and> stats (snd (applyDigests L change (r\<lparr>stats := Some s'\<rparr>))) = Some s'
     \<and> Total s' = (if kind change = KeyOther then Total s else Total s + 1)"
  using Stats_update_no_nil [OF assms(2,3), of change]
  by (simp add: updateDigests_def assms(1) applyDigests_stats)

text \<open>
  Claim C3. The code does not do what the claim says in every state: a stats file that
  gives the bucket of the current hour as \<^verbatim>\<open>null\<close> leaves a nil \<^verbatim>\<open>*LoadStat\<close> in
  \<open>Hourly\<close>, and then \<^verbatim>\<open>r.stats.update(change)\<close> of line 291 panics at \<^verbatim>\<open>ls.Inserted++\<close>
  before any digest is decoded. For a change with the digest \<^verbatim>\<open>zz\<close> no error for the
  bad digest is returned.
\<close>

theorem updateDigests_malformed_nil_bucket:
  "updateDigests sks \<lparr>instant = 1000 * Hour + 5, location = Zone 1\<rparr>
       \<lparr>instant = 1000 * Hour + 5, location = Zone 1\<rparr>
       \<lparr>kind = KeyAdded, InsertDigests = [''zz''], RemoveDigests = []\<rparr>
       \<lparr>peer = [],
        stats = Some (newStats\<lparr>Hourly := [\<lparr>instant = 1000 * Hour, location = UTC\<rparr> \<mapsto> None]\<rparr>)\<rparr>
     = Inl NilPointerDereference"
  by (simp add: updateDigests_def Stats_update_def LoadStatMap_update_def newStats_def
      Time_Truncate_def Time_UTC_def Hour_def)

text \<open>
  Claim C9. The code does not count every change: with a nil \<^verbatim>\<open>r.stats\<close>, which
  \<^verbatim>\<open>loadStats\<close> leaves for a stats file \<^verbatim>\<open>null\<close> when \<^verbatim>\<open>Root()\<close> fails, line 291 panics,
  and with a nil bucket for the current day \<^verbatim>\<open>Stats.update\<close> panics at \<^verbatim>\<open>ls.Updated++\<close>.
  No counter of \<open>Daily\<close> or \<open>Total\<close> is incremented there.
\<close>

theorem updateDigests_counts_nil_stats:
  "updateDigests sks \<lparr>instant = 1000 * Hour + 5, location = Zone 1\<rparr>
       \<lparr>instant = 1000 * Hour + 5, location = Zone 1\<rparr>
       \<lparr>kind = KeyReplaced, InsertDigests = [''00''], RemoveDigests = [''01'']\<rparr>
       \<lparr>peer = [], stats = None\<rparr>
     = Inl NilPointerDereference
   \<and> Stats_update \<lparr>instant = 1000 * Hour + 5, location = Zone 1\<rparr>
       \<lparr>instant = 1000 * Hour + 5, location = Zone 1\<rparr>
       \<lparr>kind = KeyReplaced, InsertDigests = [''00''], RemoveDigests = [''01'']\<rparr>
       (newStats\<lparr>Daily := [\<lparr>instant = 984 * Hour, location = UTC\<rparr> \<mapsto> None]\<rparr>)
     = Inl NilPointerDereference"
  by (simp add: updateDigests_def Stats_update_def LoadStatMap_update_def newStats_def
      Time_Truncate_def Time_UTC_def Hour_def)

subsection \<open>DigestZp\<close>

lemma le_val_nonneg: "0 \<le> le_val b"
  by (induction b) simp_all

lemma le_val_bound: "le_val b < 256 ^ length b"
proof (induction b)
  case Nil
  then show ?case by simp
next
  case (Cons x b)
  have "uint x < 256"
    using uint_bounded [of x] by simp
  with Cons show ?case by simp
qed

lemma le_val_append_zeros: "le_val (b @ replicate n 0) = le_val b"
  by (induction b) (simp_all add: le_val_zeros)

lemma le_val_PadSksElement: "le_val (PadSksElement b) = le_val b"
  by (simp add: PadSksElement_def le_val_append_zeros)

lemma le_bytes_nonpos: "n \<le> 0 \<Longrightarrow> le_bytes n = []"
  by (simp add: le_bytes.simps)

lemma le_bytes_pos: "0 < n \<Longrightarrow> le_bytes n = word_of_int (n mod 256) # le_bytes (n div 256)"
  by (subst le_bytes.simps) simp

lemma le_val_Cons_parts:
  "(uint (x::byte) + 256 * v) mod 256 = uint x" "(uint (x::byte) + 256 * v) div 256 = v"
proof -
  have x: "0 \<le> uint x" "uint x < 256"
    using uint_bounded [of x] by simp_all
  then show "(uint x + 256 * v) mod 256 = uint x" by simp
  from x show "(uint x + 256 * v) div 256 = v" by simp
qed

lemma le_bytes_le_val:
  "length (le_bytes (le_val b)) \<le> length b
   \<and> le_bytes (le_val b) @ replicate (length b - length (le_bytes (le_val b))) 0 = b"
proof (induction b)
  case Nil
  then show ?case by (simp add: le_bytes_nonpos)
next
  case (Cons x b)
  let ?n = "uint x + 256 * le_val b"
  have n: "0 \<le> ?n"
    using le_val_nonneg [of b] by simp
  show ?case
  proof (cases "?n = 0")
    case True
    have "0 \<le> uint x"
      by simp
    with True le_val_nonneg [of b] have x: "uint x = 0" and v: "le_val b = 0"
      by linarith+
    from x have x0: "x = 0"
      by (simp add: word_uint_eq_iff)
    from Cons v have "replicate (length b) 0 = b"
      by (simp add: le_bytes_nonpos)
    then have "replicate (Suc (length b)) 0 = x # b"
      using x0 by simp
    then show ?thesis
      using True by (simp add: le_bytes_nonpos)
  next
    case False
    with n have pos: "0 < ?n" by simp
    have m: "?n mod 256 = uint x" and d: "?n div 256 = le_val b"
      by (rule le_val_Cons_parts)+
    have "le_bytes ?n = x # le_bytes (le_val b)"
      unfolding le_bytes_pos [OF pos] m d by simp
    with Cons show ?thesis by simp
  qed
qed

lemma le_val_le_bytes: "0 \<le> n \<Longrightarrow> le_val (le_bytes n) = n"
proof (induction n rule: le_bytes.induct)
  case (1 n)
  show ?case
  proof (cases "n = 0")
    case True
    then show ?thesis by (simp add: le_bytes_nonpos)
  next
    case False
    with "1.prems" have pos: "0 < n" by simp
    then have "\<not> n \<le> 0" by simp
    from "1.IH" [OF this] pos have IH: "le_val (le_bytes (n div 256)) = n div 256"
      by simp
    have "uint (word_of_int (n mod 256) :: byte) = n mod 256"
      by (simp add: uint_word_of_int)
    then show ?thesis
      by (simp add: le_bytes_pos [OF pos] IH)
  qed
qed

lemma length_le_bytes: "n < 256 ^ k \<Longrightarrow> length (le_bytes n) \<le> k"
proof (induction n arbitrary: k rule: le_bytes.induct)
  case (1 n)
  show ?case
  proof (cases "n \<le> 0")
    case True
    then show ?thesis by (simp add: le_bytes_nonpos)
  next
    case False
    then have pos: "0 < n" by simp
    with "1.prems" obtain j where k: "k = Suc j"
      by (cases k) simp_all
    with "1.prems" have "n div 256 < 256 ^ j"
      by (simp add: div_less_iff_less_mult algebra_simps)
    from "1.IH" [OF False this] show ?thesis
      by (simp add: le_bytes_pos [OF pos] k)
  qed
qed

lemma length_PadSksElement: "length (PadSksElement b) = max 17 (length b)"
  by (simp add: PadSksElement_def SksZpNbytes_def)

lemma PadSksElement_le_bytes:
  assumes "length b \<le> 17"
  shows "PadSksElement (le_bytes (le_val b)) = PadSksElement b"
proof -
  let ?s = "le_bytes (le_val b)"
  have len: "length ?s \<le> length b" and b: "?s @ replicate (length b - length ?s) 0 = b"
    using le_bytes_le_val [of b] by simp_all
  have "PadSksElement b = (?s @ replicate (length b - length ?s) 0) @ replicate (17 - length b) 0"
    by (simp add: PadSksElement_def SksZpNbytes_def b)
  also have "\<dots> = ?s @ replicate (17 - length ?s) 0"
    using len assms by (simp add: replicate_add [symmetric])
  finally show ?thesis
    by (simp add: PadSksElement_def SksZpNbytes_def)
qed

lemma P_SKS_bounds: "2 ^ 128 < P_SKS" "P_SKS < 256 ^ 17"
  by (simp_all add: P_SKS_def)

lemma short_below_P_SKS:
  assumes "length b \<le> 16"
  shows "le_val b < P_SKS"
proof -
  have "le_val b < 256 ^ length b"
    by (rule le_val_bound)
  also have "(256::int) ^ length b \<le> 256 ^ 16"
    using assms by (intro power_increasing) simp_all
  also have "(256::int) ^ 16 < P_SKS"
    by (simp add: P_SKS_def)
  finally show ?thesis .
qed

lemma DigestZp_sks:
  "hex_DecodeString digest = Inr buf \<Longrightarrow> DigestZp sks digest = Inr (le_val buf mod P_SKS)"
  by (simp add: DigestZp_def sks_def le_val_PadSksElement)

lemma sks_roundtrip_iff:
  "PadSksElement (Bytes sks (le_val buf mod P_SKS)) = PadSksElement buf
     \<longleftrightarrow> length buf \<le> 17 \<and> le_val buf < P_SKS"
proof
  let ?z = "le_val buf mod P_SKS"
  have z: "0 \<le> ?z" "?z < P_SKS"
    by (simp_all add: P_SKS_def)
  assume eq: "PadSksElement (Bytes sks ?z) = PadSksElement buf"
  then have "le_val (PadSksElement (le_bytes ?z)) = le_val (PadSksElement buf)"
    by (simp add: sks_def)
  then have "?z = le_val buf"
    by (simp add: le_val_PadSksElement le_val_le_bytes z(1))
  with z(2) have small: "le_val buf < P_SKS" by simp
  have "?z < 256 ^ 17"
    using z(2) P_SKS_bounds(2) by simp
  then have "length (le_bytes ?z) \<le> 17"
    by (rule length_le_bytes)
  moreover from eq have "max 17 (length (le_bytes ?z)) = max 17 (length buf)"
    using length_PadSksElement [of "le_bytes ?z"] length_PadSksElement [of buf]
    by (simp add: sks_def)
  ultimately have "length buf \<le> 17" by simp
  with small show "length buf \<le> 17 \<and> le_val buf < P_SKS" by simp
next
  assume a: "length buf \<le> 17 \<and> le_val buf < P_SKS"
  then have "le_val buf mod P_SKS = le_val buf"
    using le_val_nonneg [of buf] by simp
  then show "PadSksElement (Bytes sks (le_val buf mod P_SKS)) = PadSksElement buf"
    using a by (simp add: sks_def PadSksElement_le_bytes)
qed

text \<open>
  Claim C8 as the spec states it, for every hexadecimal digest, fails for the digest of
  17 bytes \<^verbatim>\<open>ff\<close>: its number is not below \<open>P_SKS\<close>, \<open>Zb\<close> reduces it, and the bytes of
  the element are other bytes.
\<close>

theorem DigestZp_roundtrip_counterexample:
  "hex_DecodeString ''ffffffffffffffffffffffffffffffffff''
     = Inr [255, 255, 255, 255, 255, 255, 255, 255, 255, 255, 255, 255, 255, 255, 255, 255, 255]
   \<and> DigestZp sks ''ffffffffffffffffffffffffffffffffff''
     = Inr 108172045297465755782986164709634409139
   \<and> PadSksElement (Bytes sks 108172045297465755782986164709634409139)
     \<noteq> PadSksElement
         [255, 255, 255, 255, 255, 255, 255, 255, 255, 255, 255, 255, 255, 255, 255, 255, 255]"
proof -
  let ?buf = "[255, 255, 255, 255, 255, 255, 255, 255, 255, 255, 255, 255, 255, 255, 255, 255, 255] :: byte list"
  have h: "hex_DecodeString ''ffffffffffffffffffffffffffffffffff'' = Inr ?buf"
    by (simp add: fromHexChar_def)
  have v: "le_val ?buf = 87112285931760246646623899502532662132735"
    by simp
  have z: "le_val ?buf mod P_SKS = 108172045297465755782986164709634409139"
    unfolding v by (simp add: P_SKS_def)
  have "\<not> le_val ?buf < P_SKS"
    unfolding v by (simp add: P_SKS_def)
  then have "PadSksElement (Bytes sks (le_val ?buf mod P_SKS)) \<noteq> PadSksElement ?buf"
    unfolding sks_roundtrip_iff by (simp only: simp_thms)
  then show ?thesis
    using DigestZp_sks [OF h] unfolding z by (simp only: h simp_thms)
qed

text \<open>
  Claim C8, amended. A hexadecimal digest becomes an element of the SKS field, and the
  bytes of that element, padded to the element width, are the padded bytes of the digest
  exactly when the digest has at most 17 bytes and its number, least significant byte
  first, is below \<open>P_SKS\<close>. Every digest of at most 16 bytes is such a digest.
\<close>

theorem DigestZp_roundtrip:
  assumes "hex_DecodeString digest = Inr buf"
  shows "\<exists>z. DigestZp sks digest = Inr z
     \<and> (PadSksElement (Bytes sks z) = PadSksElement buf
          \<longleftrightarrow> length buf \<le> 17 \<and> le_val buf < P_SKS)
     \<and> (length buf \<le> 16 \<longrightarrow> PadSksElement (Bytes sks z) = PadSksElement buf)"
proof (intro exI conjI impI)
  show "DigestZp sks digest = Inr (le_val buf mod P_SKS)"
    using assms by (rule DigestZp_sks)
  show "PadSksElement (Bytes sks (le_val buf mod P_SKS)) = PadSksElement buf
      \<longleftrightarrow> length buf \<le> 17 \<and> le_val buf < P_SKS"
    by (rule sks_roundtrip_iff)
  show "PadSksElement (Bytes sks (le_val buf mod P_SKS)) = PadSksElement buf"
    if "length buf \<le> 16"
    using that short_below_P_SKS [OF that] by (simp add: sks_roundtrip_iff)
qed

theorem DigestZp_roundtrip_witness:
  "hex_DecodeString ''00112233445566778899aabbccddeeff''
     = Inr [0, 17, 34, 51, 68, 85, 102, 119, 136, 153, 170, 187, 204, 221, 238, 255]
   \<and> DigestZp sks ''00112233445566778899aabbccddeeff''
     = Inr 340193404210632335760508365704335069440
   \<and> PadSksElement (Bytes sks 340193404210632335760508365704335069440)
     = [0, 17, 34, 51, 68, 85, 102, 119, 136, 153, 170, 187, 204, 221, 238, 255, 0]"
proof -
  let ?buf = "[0, 17, 34, 51, 68, 85, 102, 119, 136, 153, 170, 187, 204, 221, 238, 255] :: byte list"
  have h: "hex_DecodeString ''00112233445566778899aabbccddeeff'' = Inr ?buf"
    by (simp add: fromHexChar_def)
  have d: "DigestZp sks ''00112233445566778899aabbccddeeff''
      = Inr 340193404210632335760508365704335069440"
    using DigestZp_sks [OF h] by (simp add: P_SKS_def)
  from DigestZp_roundtrip [OF h]
  have "PadSksElement (Bytes sks 340193404210632335760508365704335069440) = PadSksElement ?buf"
    unfolding d by simp
  then show ?thesis
    using h d by (simp add: PadSksElement_def SksZpNbytes_def)
qed

subsection \<open>The request of requestChunk\<close>

lemma hashqueryElements_encoding:
  assumes "\<And>n. WriteInt L n = Inr (frame n)"
  shows "hashqueryElements L chunk buf =
     Inr (buf @ concat (map (\<lambda>z. frame (int (length (butlast (PadSksElement (Bytes L z)))))
                                  @ butlast (PadSksElement (Bytes L z))) chunk))"
  by (induction chunk arbitrary: buf) (simp_all add: assms Let_def butlast_conv_take)

lemma PadSksElement_not_Nil: "PadSksElement zb \<noteq> []"
  by (simp add: PadSksElement_def SksZpNbytes_def)

text \<open>
  Claim C7. With a \<^verbatim>\<open>WriteInt\<close> that writes \<open>frame n\<close> for the number \<open>n\<close>, the request
  for a chunk is the frame of the number of elements and then, for each element in
  order, the frame of the length of its raw bytes and the raw bytes. The raw bytes are
  the bytes of the element padded to the element width, less their last byte. This is
  the body that \<^verbatim>\<open>requestChunk\<close> posts to \<^verbatim>\<open>/pks/hashquery\<close> on the remote address.
\<close>

theorem hashqueryRequest_encoding:
  assumes "\<And>n. WriteInt L n = Inr (frame n)"
  shows "let raw = (\<lambda>z. butlast (PadSksElement (Bytes L z)));
             body = frame (int (length chunk))
                    @ concat (map (\<lambda>z. frame (int (length (raw z))) @ raw z) chunk)
         in hashqueryRequest L chunk = Inr body
            \<and> (\<forall>z. length (raw z) = max 17 (length (Bytes L z)) - 1
                    \<and> raw z @ [last (PadSksElement (Bytes L z))] = PadSksElement (Bytes L z))
            \<and> (\<forall>addr. HkpAddr rcvr = Inr addr \<longrightarrow>
                  requestChunk L recording rcvr chunk []
                    = (None, [(''http://'' @ addr @ ''/pks/hashquery'', body)]))"
proof -
  let ?raw = "\<lambda>z. butlast (PadSksElement (Bytes L z))"
  let ?body = "frame (int (length chunk))
                 @ concat (map (\<lambda>z. frame (int (length (?raw z))) @ ?raw z) chunk)"
  have req: "hashqueryRequest L chunk = Inr ?body"
    by (simp add: hashqueryRequest_def assms hashqueryElements_encoding [OF assms])
  have len: "length (?raw z) = max 17 (length (Bytes L z)) - 1" for z
    by (simp add: length_PadSksElement)
  have cut: "?raw z @ [last (PadSksElement (Bytes L z))] = PadSksElement (Bytes L z)" for z
    by (rule append_butlast_last_id) (rule PadSksElement_not_Nil)
  have post: "requestChunk L recording rcvr chunk []
      = (None, [(''http://'' @ addr @ ''/pks/hashquery'', ?body)])"
    if "HkpAddr rcvr = Inr addr" for addr
    by (simp add: requestChunk_def that req recording_def)
  show ?thesis
    unfolding Let_def using req len cut post by blast
qed

theorem hashqueryRequest_encoding_witness:
  "requestChunk sks recording \<lparr>RemoteElements = [], HkpAddr = Inr ''peer:11371''\<rparr>
       [3721182122, 0] []
     = (None,
        [(''http://peer:11371/pks/hashquery'',
          [0, 0, 0, 2]
          @ [0, 0, 0, 16] @ [170, 187, 204, 221] @ replicate 12 0
          @ [0, 0, 0, 16] @ replicate 16 0)])"
proof -
  have w: "WriteInt sks n = Inr (be_uint32 n)" for n
    by (simp add: sks_def)
  have b: "Bytes sks 3721182122 = [170, 187, 204, 221]" "Bytes sks 0 = []"
    by (simp_all add: sks_def le_bytes.simps)
  have "HkpAddr \<lparr>RemoteElements = [], HkpAddr = Inr ''peer:11371''\<rparr> = Inr ''peer:11371''"
    by simp
  with hashqueryRequest_encoding [of sks be_uint32 "[3721182122, 0]"
      "\<lparr>RemoteElements = [], HkpAddr = Inr ''peer:11371''\<rparr>", OF w]
  have "requestChunk sks recording \<lparr>RemoteElements = [], HkpAddr = Inr ''peer:11371''\<rparr>
       [3721182122, 0] []
     = (None,
        [(''http://'' @ ''peer:11371'' @ ''/pks/hashquery'',
          be_uint32 2
          @ concat (map (\<lambda>z. be_uint32 (int (length (butlast (PadSksElement (Bytes sks z)))))
                               @ butlast (PadSksElement (Bytes sks z))) [3721182122, 0]))])"
    unfolding Let_def by simp
  then show ?thesis
    by (simp add: b be_uint32_def PadSksElement_def SksZpNbytes_def butlast_conv_take)
qed

subsection \<open>The requests of requestRecovered\<close>

lemma hashqueryRequest_frame:
  assumes "\<And>n. WriteInt L n = Inr (frame n)"
  shows "hashqueryRequest L chunk =
     Inr (frame (int (length chunk))
          @ concat (map (\<lambda>z. frame (int (length (butlast (PadSksElement (Bytes L z)))))
                              @ butlast (PadSksElement (Bytes L z))) chunk))"
  by (simp add: hashqueryRequest_def assms hashqueryElements_encoding [OF assms])

lemma requestChunk_posting:
  assumes "HkpAddr rcvr = Inr addr" and "hashqueryRequest L chunk = Inr body"
  shows "snd (snd (requestChunk L (posting T) rcvr chunk (w, posts))) =
     posts @ [(''http://'' @ addr @ ''/pks/hashquery'', body)]"
  by (simp add: requestChunk_def posting_def assms split: prod.splits sum.splits)

lemma requestChunk_no_address:
  "HkpAddr rcvr = Inl err \<Longrightarrow> requestChunk L T rcvr chunk w = (Some (Mask err), w)"
  by (simp add: requestChunk_def)

lemma loop_posting:
  assumes "HkpAddr rcvr = Inr addr" and "\<And>chunk. hashqueryRequest L chunk = Inr (enc chunk)"
  shows "snd (snd (requestRecovered_loop (requestChunk L (posting T)) rcvr items r (w, posts))) =
     posts @ map (\<lambda>chunk. (''http://'' @ addr @ ''/pks/hashquery'', enc chunk)) (chunks_of items)"
proof (induction items arbitrary: r w posts rule: chunks_of.induct)
  case (1 items)
  show ?case
  proof (cases "items = []")
    case True
    then show ?thesis by (simp add: loop_Nil chunks_of_Nil)
  next
    case False
    obtain err w' posts' where rc:
      "requestChunk L (posting T) rcvr (take 100 items) (w, posts) = (err, (w', posts'))"
      by (cases "requestChunk L (posting T) rcvr (take 100 items) (w, posts)") auto
    have posts': "posts' = posts @ [(''http://'' @ addr @ ''/pks/hashquery'', enc (take 100 items))]"
      using requestChunk_posting [OF assms(1) assms(2),
          where chunk = "take 100 items" and T = T and w = w and posts = posts]
      by (simp add: rc)
    have step: "requestRecovered_loop (requestChunk L (posting T)) rcvr items r (w, posts) =
        requestRecovered_loop (requestChunk L (posting T)) rcvr (drop 100 items)
          (resultErr_after r err) (w', posts')"
      by (subst loop_step [OF False]) (simp add: rc)
    show ?thesis
      unfolding step "1.IH" [OF False] chunks_of_step [OF False] posts' by simp
  qed
qed

lemma map_nth_chunks_of:
  "map (\<lambda>k. take 100 (drop (100 * k) items)) [0..<length (chunks_of items)] = chunks_of items"
  by (rule nth_equalityI) (simp_all add: nth_chunks_of)

text \<open>
  Claim C1 as the spec states it, for every \<^verbatim>\<open>Recover\<close>, fails where \<^verbatim>\<open>rcvr.HkpAddr()\<close>
  returns an error: \<^verbatim>\<open>requestChunk\<close> returns at lines 346 to 349, before it builds or
  posts a request. For three remote elements no request is issued, not one.
\<close>

theorem requestRecovered_posts_counterexample:
  "requestRecovered sks recording
       \<lparr>RemoteElements = [1, 2, 3], HkpAddr = Inl (Other ''no http address'')\<rparr> []
     = (Some (Mask (Mask (Other ''no http address''))), [])"
  by (simp add: requestRecovered_def requestRecovered_with_def loop_step loop_Nil
      resultErr_after_def requestChunk_def)

text \<open>
  Claim C1, amended. For a \<^verbatim>\<open>Recover\<close> with \<open>n\<close> remote elements whose \<^verbatim>\<open>HkpAddr()\<close>
  returns an address, and with a \<^verbatim>\<open>WriteInt\<close> that does not fail, \<^verbatim>\<open>requestRecovered\<close>
  posts exactly \<open>\<lceil>n / 100\<rceil>\<close> HashQuery requests to that address, whatever the transport
  answers. Request \<open>k\<close> (from 0) is the encoding of the chunk of elements \<open>100 k\<close> onwards,
  which has \<open>min 100 (n - 100 k)\<close> elements, and the chunks, one after the other, are the
  remote elements in their order.
\<close>

theorem requestRecovered_posts:
  assumes "HkpAddr rcvr = Inr addr" and "\<And>n. WriteInt L n = Inr (frame n)"
  shows "let items = RemoteElements rcvr;
             n = length items;
             posts = snd (snd (requestRecovered L (posting T) rcvr (w, [])));
             chunk = (\<lambda>k. take 100 (drop (100 * k) items))
         in length posts = (n + 99) div 100
            \<and> (\<forall>k<length posts.
                  length (chunk k) = min 100 (n - 100 * k)
                  \<and> fst (posts ! k) = ''http://'' @ addr @ ''/pks/hashquery''
                  \<and> hashqueryRequest L (chunk k) = Inr (snd (posts ! k)))
            \<and> concat (map chunk [0..<length posts]) = items"
proof -
  let ?items = "RemoteElements rcvr"
  let ?url = "''http://'' @ addr @ ''/pks/hashquery''"
  let ?chunk = "\<lambda>k. take 100 (drop (100 * k) ?items)"
  define enc where "enc = (\<lambda>chunk. frame (int (length chunk))
      @ concat (map (\<lambda>z. frame (int (length (butlast (PadSksElement (Bytes L z)))))
                          @ butlast (PadSksElement (Bytes L z))) chunk))"
  have enc: "hashqueryRequest L chunk = Inr (enc chunk)" for chunk
    unfolding enc_def using assms(2) by (rule hashqueryRequest_frame)
  define posts where "posts = snd (snd (requestRecovered L (posting T) rcvr (w, [])))"
  have posts: "posts = map (\<lambda>chunk. (?url, enc chunk)) (chunks_of ?items)"
    unfolding posts_def requestRecovered_def requestRecovered_with_def
    using loop_posting [OF assms(1) enc, of T ?items None w "[]"] by simp
  have len: "length posts = (length ?items + 99) div 100"
    by (simp add: posts length_chunks_of)
  have nth: "length (?chunk k) = min 100 (length ?items - 100 * k)
      \<and> fst (posts ! k) = ?url
      \<and> hashqueryRequest L (?chunk k) = Inr (snd (posts ! k))" if "k < length posts" for k
  proof -
    from that have k: "k < length (chunks_of ?items)"
      by (simp add: posts)
    then have "posts ! k = (?url, enc (?chunk k))"
      by (simp add: posts nth_chunks_of)
    then show ?thesis
      by (simp add: enc min.commute)
  qed
  have "map ?chunk [0..<length posts] = chunks_of ?items"
    using map_nth_chunks_of [of ?items] by (simp add: posts)
  then have cat: "concat (map ?chunk [0..<length posts]) = ?items"
    by (simp add: concat_chunks_of)
  show ?thesis
    unfolding Let_def posts_def [symmetric] using len nth cat by blast
qed


theorem requestRecovered_posts_witness:
  "let T = \<lparr>Post = (\<lambda>url body w. (Inr (500, []), w)), Merge = (\<lambda>bodyBuf w. (None, w))\<rparr>;
       rcvr = \<lparr>RemoteElements = [0..249], HkpAddr = Inr ''peer:11371''\<rparr>;
       posts = snd (snd (requestRecovered sks (posting T) rcvr ((), [])))
   in length posts = 3
      \<and> fst (posts ! 0) = ''http://peer:11371/pks/hashquery''
      \<and> hashqueryRequest sks (take 100 [0..249]) = Inr (snd (posts ! 0))
      \<and> fst (posts ! 2) = ''http://peer:11371/pks/hashquery''
      \<and> hashqueryRequest sks (take 100 (drop 200 [0..249])) = Inr (snd (posts ! 2))
      \<and> length (take 100 (drop 200 [0..249])) = 50
      \<and> snd (snd (requestRecovered sks (posting T)
                    \<lparr>RemoteElements = [3721182122, 0], HkpAddr = Inr ''peer:11371''\<rparr> ((), [])))
          = [(''http://peer:11371/pks/hashquery'',
              [0, 0, 0, 2]
              @ [0, 0, 0, 16] @ [170, 187, 204, 221] @ replicate 12 0
              @ [0, 0, 0, 16] @ replicate 16 0)]"
proof -
  let ?T = "\<lparr>Post = (\<lambda>url body w. (Inr (500, []), w)), Merge = (\<lambda>bodyBuf w. (None, w))\<rparr>
      :: unit transport"
  let ?rcvr = "\<lparr>RemoteElements = [0..249], HkpAddr = Inr ''peer:11371''\<rparr>"
  let ?small = "\<lparr>RemoteElements = [3721182122, 0], HkpAddr = Inr ''peer:11371''\<rparr>"
  define posts where "posts = snd (snd (requestRecovered sks (posting ?T) ?rcvr ((), [])))"
  define small where "small = snd (snd (requestRecovered sks (posting ?T) ?small ((), [])))"
  have w: "WriteInt sks n = Inr (be_uint32 n)" for n
    by (simp add: sks_def)
  have a: "HkpAddr ?rcvr = Inr ''peer:11371''" and a': "HkpAddr ?small = Inr ''peer:11371''"
    by simp_all
  from requestRecovered_posts [OF a w, of ?T "()"]
  have len: "length posts = 3"
    and all: "\<forall>k<length posts.
        length (take 100 (drop (100 * k) [0..249])) = min 100 (250 - 100 * k)
        \<and> fst (posts ! k) = ''http://peer:11371/pks/hashquery''
        \<and> hashqueryRequest sks (take 100 (drop (100 * k) [0..249])) = Inr (snd (posts ! k))"
    by (simp_all add: Let_def posts_def [symmetric])
  from all [rule_format, of 0] len have k0: "fst (posts ! 0) = ''http://peer:11371/pks/hashquery''
      \<and> hashqueryRequest sks (take 100 [0..249]) = Inr (snd (posts ! 0))"
    by simp
  from all [rule_format, of 2] len
  have k2: "fst (posts ! 2) = ''http://peer:11371/pks/hashquery''
      \<and> hashqueryRequest sks (take 100 (drop 200 [0..249])) = Inr (snd (posts ! 2))
      \<and> length (take 100 (drop 200 [0..249])) = 50"
    by simp
  have b: "Bytes sks 3721182122 = [170, 187, 204, 221]" "Bytes sks 0 = []"
    by (simp_all add: sks_def le_bytes.simps)
  from requestRecovered_posts [OF a' w, of ?T "()"]
  have slen: "length small = 1"
    and "fst (small ! 0) = ''http://peer:11371/pks/hashquery''"
    and "hashqueryRequest sks [3721182122, 0] = Inr (snd (small ! 0))"
    by (auto simp add: Let_def small_def [symmetric])
  note this(2,3)
  moreover have "hashqueryRequest sks [3721182122, 0] =
      Inr ([0, 0, 0, 2] @ [0, 0, 0, 16] @ [170, 187, 204, 221] @ replicate 12 0
           @ [0, 0, 0, 16] @ replicate 16 0)"
    by (simp add: hashqueryRequest_def w b be_uint32_def PadSksElement_def SksZpNbytes_def
        butlast_conv_take)
  ultimately have "small ! 0 = (''http://peer:11371/pks/hashquery'',
      [0, 0, 0, 2] @ [0, 0, 0, 16] @ [170, 187, 204, 221] @ replicate 12 0
      @ [0, 0, 0, 16] @ replicate 16 0)"
    by (cases "small ! 0") simp
  with slen have s: "small = [(''http://peer:11371/pks/hashquery'',
      [0, 0, 0, 2] @ [0, 0, 0, 16] @ [170, 187, 204, 221] @ replicate 12 0
      @ [0, 0, 0, 16] @ replicate 16 0)]"
    by (cases small) simp_all
  show ?thesis
    unfolding Let_def posts_def [symmetric] small_def [symmetric]
    using len k0 k2 s by simp
qed

end
